theory Spec2Isabelle
  imports Main
begin

section \<open>The node contract and the registry's data (pipeline.h)\<close>

text \<open>
  The library is embedded shallowly. A \<^verbatim>\<open>node*\<close> held by the registry or stored by a user
  node is represented by the id under which the owning pipeline registered the object:
  ids are never handed out twice by one pipeline, so an id whose node was erased plays
  the part of a dangling pointer, and \<open>None\<close> the part of \<^verbatim>\<open>nullptr\<close>. The identifiers
  are C++ \<^verbatim>\<open>int\<close>s; no claim depends on their overflow, so they are integers here.
\<close>

datatype pipeline_error_kind =
  invalid_node_id | no_such_slot | slot_already_used | connection_type_mismatch

datatype poll = ready | empty | closed

text \<open>\<^verbatim>\<open>std::type_index\<close>: \<^verbatim>\<open>typeid(void)\<close> and the tokens of the value types.\<close>

datatype type_index = typeid_void | typeid_of string

type_synonym node_id = int

text \<open>
  A node object: the members the user's class adds (\<open>impl\<close>), and the two private members
  of \<^verbatim>\<open>ppl::node\<close> (the source's names end in an underscore, which a constant's name
  cannot). \<open>connections\<close> is the \<^verbatim>\<open>std::unordered_map<slot_id, const int>\<close>; it is kept
  as the list of its entries in the container's iteration order, with pairwise different
  keys. \<open>dependencies\<close> is the \<^verbatim>\<open>std::vector<std::pair<int, int>>\<close>.
\<close>

record 'u node =
  impl :: 'u
  connections :: "(int \<times> node_id) list"
  dependencies :: "(node_id \<times> int) list"

text \<open>
  The virtual member functions of a node, as functions of the user's part of the object.
  \<open>node_connect\<close> is \<^verbatim>\<open>connect(const node* source, int slot)\<close>: it returns the object as
  it has become and the error it threw, if any. \<open>node_poll_next\<close> is \<^verbatim>\<open>poll_next()\<close>: it
  may read the other objects (through the pointers the node stored), and \<open>None\<close> is a
  call that does not return (a null or dangling pointer is dereferenced).
\<close>

record 'u vtable =
  get_input_types :: "'u \<Rightarrow> type_index list"
  get_output_type :: "'u \<Rightarrow> type_index"
  node_connect :: "'u \<Rightarrow> node_id option \<Rightarrow> int \<Rightarrow> pipeline_error_kind option \<times> 'u"
  node_poll_next :: "(node_id \<Rightarrow> 'u option) \<Rightarrow> 'u \<Rightarrow> (poll \<times> 'u) option"

text \<open>
  \<^verbatim>\<open>class pipeline\<close>: \<open>nodes\<close> is the \<^verbatim>\<open>std::map<node_id, node*>\<close>, the list of its entries
  in ascending order of the ids, each with the object it owns.
\<close>

record 'u pipeline =
  nodes :: "(node_id \<times> 'u node) list"
  current_id :: node_id

text \<open>
  What a call does: it returns, it throws a \<^verbatim>\<open>pipeline_error\<close>, or its behaviour is
  undefined (a null pointer is dereferenced).
\<close>

datatype 'a outcome = Returns 'a | Throws pipeline_error_kind | Undefined

subsection \<open>The containers\<close>

text \<open>
  \<^verbatim>\<open>std::map::emplace\<close>: nothing happens when the key is there; otherwise the entry is
  put where the order of the keys wants it.
\<close>

fun map_insert :: "int \<Rightarrow> 'a \<Rightarrow> (int \<times> 'a) list \<Rightarrow> (int \<times> 'a) list" where
  "map_insert k v [] = [(k, v)]"
| "map_insert k v ((k', v') # m) =
     (if k < k' then (k, v) # (k', v') # m else (k', v') # map_insert k v m)"

definition map_emplace :: "int \<Rightarrow> 'a \<Rightarrow> (int \<times> 'a) list \<Rightarrow> (int \<times> 'a) list" where
  "map_emplace k v m = (if map_of m k = None then map_insert k v m else m)"

text \<open>
  \<^verbatim>\<open>std::unordered_map::emplace\<close>. Where the new entry stands in the iteration order is
  the implementation's choice; here it comes first.
\<close>

definition umap_emplace :: "int \<Rightarrow> 'a \<Rightarrow> (int \<times> 'a) list \<Rightarrow> (int \<times> 'a) list" where
  "umap_emplace k v m = (if map_of m k = None then (k, v) # m else m)"

subsection \<open>The editing operations (pipeline.cpp)\<close>

definition pipeline_init :: "'u pipeline" where
  "pipeline_init = \<lparr>nodes = [], current_id = 1\<rparr>"

definition get_node :: "'u pipeline \<Rightarrow> node_id \<Rightarrow> 'u node option" where
  "get_node p n_id = map_of (nodes p) n_id"

text \<open>
  A write through the pointer \<^verbatim>\<open>get_node(n_id)\<close>: the object of the entry that \<^verbatim>\<open>find\<close>
  gives becomes \<open>n\<close>.
\<close>

fun assign_at :: "int \<Rightarrow> 'a \<Rightarrow> (int \<times> 'a) list \<Rightarrow> (int \<times> 'a) list" where
  "assign_at k v [] = []"
| "assign_at k v ((k', v') # m) = (if k' = k then (k', v) # m else (k', v') # assign_at k v m)"

definition put_node :: "node_id \<Rightarrow> 'u node \<Rightarrow> 'u pipeline \<Rightarrow> 'u pipeline" where
  "put_node n_id n p = p\<lparr>nodes := assign_at n_id n (nodes p)\<rparr>"

text \<open>\<^verbatim>\<open>create_node<N>(args...)\<close>; \<open>obj\<close> is the object \<^verbatim>\<open>new N(args...)\<close> constructs.\<close>

definition create_node :: "'u pipeline \<Rightarrow> 'u \<Rightarrow> node_id \<times> 'u pipeline" where
  "create_node p obj =
     (current_id p,
      p\<lparr>nodes := map_emplace (current_id p)
                     \<lparr>impl = obj, connections = [], dependencies = []\<rparr> (nodes p),
        current_id := current_id p + 1\<rparr>)"

text \<open>The first loop of \<^verbatim>\<open>erase_node\<close>, over the connections of the erased node.\<close>

fun erase_from_sources ::
  "node_id \<Rightarrow> (int \<times> node_id) list \<Rightarrow> 'u pipeline \<Rightarrow> 'u pipeline option" where
  "erase_from_sources n_id [] p = Some p"
| "erase_from_sources n_id ((slot, src) # cs) p =
     (case get_node p src of
        None \<Rightarrow> None
      | Some s \<Rightarrow>
          erase_from_sources n_id cs
            (put_node src
               (s\<lparr>dependencies := filter (\<lambda>item. fst item \<noteq> n_id) (dependencies s)\<rparr>) p))"

text \<open>The second loop of \<^verbatim>\<open>erase_node\<close>, over the dependencies of the erased node.\<close>

fun erase_from_dests :: "(node_id \<times> int) list \<Rightarrow> 'u pipeline \<Rightarrow> 'u pipeline option" where
  "erase_from_dests [] p = Some p"
| "erase_from_dests ((dst, slot) # ds) p =
     (case get_node p dst of
        None \<Rightarrow> None
      | Some d \<Rightarrow>
          erase_from_dests ds
            (put_node dst
               (d\<lparr>connections := filter (\<lambda>item. fst item \<noteq> slot) (connections d)\<rparr>) p))"

definition erase_node :: "'u pipeline \<Rightarrow> node_id \<Rightarrow> unit outcome \<times> 'u pipeline" where
  "erase_node p n_id =
     (case get_node p n_id of
        None \<Rightarrow> (Throws invalid_node_id, p)
      | Some node \<Rightarrow>
          (case erase_from_sources n_id (connections node) p of
             None \<Rightarrow> (Undefined, p)
           | Some p1 \<Rightarrow>
               (case get_node p1 n_id of
                  None \<Rightarrow> (Undefined, p1)
                | Some node1 \<Rightarrow>
                    (case erase_from_dests (dependencies node1) p1 of
                       None \<Rightarrow> (Undefined, p1)
                     | Some p2 \<Rightarrow>
                         (Returns (),
                          p2\<lparr>nodes := filter (\<lambda>item. fst item \<noteq> n_id) (nodes p2)\<rparr>)))))"

definition connect ::
  "'u vtable \<Rightarrow> 'u pipeline \<Rightarrow> node_id \<Rightarrow> node_id \<Rightarrow> int \<Rightarrow> unit outcome \<times> 'u pipeline" where
  "connect V p src dst slot =
     (case get_node p src of
        None \<Rightarrow> (Throws invalid_node_id, p)
      | Some src_node \<Rightarrow>
     (case get_node p dst of
        None \<Rightarrow> (Throws invalid_node_id, p)
      | Some dst_node \<Rightarrow>
          if map_of (connections dst_node) slot \<noteq> None then (Throws slot_already_used, p)
          else if slot < 0 \<or> length (get_input_types V (impl dst_node)) \<le> nat slot
            then (Throws no_such_slot, p)
          else if get_input_types V (impl dst_node) ! nat slot \<noteq> get_output_type V (impl src_node)
            then (Throws connection_type_mismatch, p)
          else
            (case node_connect V (impl dst_node) (Some src) slot of
               (Some e, obj) \<Rightarrow> (Throws e, put_node dst (dst_node\<lparr>impl := obj\<rparr>) p)
             | (None, obj) \<Rightarrow>
                 (let p1 = put_node dst
                        (dst_node\<lparr>impl := obj,
                           connections := umap_emplace slot src (connections dst_node)\<rparr>) p
                  in case get_node p1 src of
                       None \<Rightarrow> (Undefined, p1)
                     | Some s1 \<Rightarrow>
                         (Returns (),
                          put_node src
                            (s1\<lparr>dependencies := dependencies s1 @ [(dst, slot)]\<rparr>) p1)))))"

text \<open>The loop of \<^verbatim>\<open>disconnect\<close> that calls \<^verbatim>\<open>dst_node->connect(nullptr, slot)\<close>.\<close>

fun disconnect_slots ::
  "'u vtable \<Rightarrow> node_id \<Rightarrow> (int \<times> node_id) list \<Rightarrow> 'u \<Rightarrow> pipeline_error_kind option \<times> 'u" where
  "disconnect_slots V src [] obj = (None, obj)"
| "disconnect_slots V src ((slot, connected_by) # cs) obj =
     (if src = connected_by
      then (case node_connect V obj None slot of
              (Some e, obj') \<Rightarrow> (Some e, obj')
            | (None, obj') \<Rightarrow> disconnect_slots V src cs obj')
      else disconnect_slots V src cs obj)"

definition disconnect ::
  "'u vtable \<Rightarrow> 'u pipeline \<Rightarrow> node_id \<Rightarrow> node_id \<Rightarrow> unit outcome \<times> 'u pipeline" where
  "disconnect V p src dst =
     (case get_node p src of
        None \<Rightarrow> (Throws invalid_node_id, p)
      | Some src_node \<Rightarrow>
     (case get_node p dst of
        None \<Rightarrow> (Throws invalid_node_id, p)
      | Some dst_node \<Rightarrow>
          (case disconnect_slots V src (connections dst_node) (impl dst_node) of
             (Some e, obj) \<Rightarrow> (Throws e, put_node dst (dst_node\<lparr>impl := obj\<rparr>) p)
           | (None, obj) \<Rightarrow>
               (let p1 = put_node dst
                      (dst_node\<lparr>impl := obj,
                         connections := filter (\<lambda>item. snd item \<noteq> src) (connections dst_node)\<rparr>) p
                in case get_node p1 src of
                     None \<Rightarrow> (Undefined, p1)
                   | Some s1 \<Rightarrow>
                       (Returns (),
                        put_node src
                          (s1\<lparr>dependencies := filter (\<lambda>item. fst item \<noteq> dst) (dependencies s1)\<rparr>)
                          p1)))))"

definition get_dependencies :: "'u pipeline \<Rightarrow> node_id \<Rightarrow> (node_id \<times> int) list outcome" where
  "get_dependencies p src =
     (case get_node p src of
        None \<Rightarrow> Throws invalid_node_id
      | Some src_node \<Rightarrow> Returns (dependencies src_node))"

section \<open>The nodes of the test suite (pipeline.test.cpp)\<close>

text \<open>
  The user's part of each node class of the tests: the slot pointers, the counters, and,
  for a \<^verbatim>\<open>stream_sink\<close>, the characters written so far to the stream it refers to.
\<close>

datatype test_node =
    test_sink "node_id option"
  | test_sink_double "node_id option"
  | test_source int
  | flex_source int int
  | skip_source int int
  | test_component "node_id option" "node_id option" int
  | stream_sink "node_id option" string

fun test_input_types :: "test_node \<Rightarrow> type_index list" where
  "test_input_types (test_sink s0) = [typeid_of ''int'']"
| "test_input_types (test_sink_double s0) = [typeid_of ''double'']"
| "test_input_types (test_source cur) = []"
| "test_input_types (flex_source cur bound) = []"
| "test_input_types (skip_source cur bound) = []"
| "test_input_types (test_component s0 s1 cur) = [typeid_of ''int'', typeid_of ''int'']"
| "test_input_types (stream_sink s0 out) = [typeid_of ''int'']"

fun test_output_type :: "test_node \<Rightarrow> type_index" where
  "test_output_type (test_sink s0) = typeid_void"
| "test_output_type (test_sink_double s0) = typeid_void"
| "test_output_type (test_source cur) = typeid_of ''int''"
| "test_output_type (flex_source cur bound) = typeid_of ''int''"
| "test_output_type (skip_source cur bound) = typeid_of ''int''"
| "test_output_type (test_component s0 s1 cur) = typeid_of ''int''"
| "test_output_type (stream_sink s0 out) = typeid_void"

text \<open>
  \<^verbatim>\<open>connect(const node* src, int slot)\<close> of each class; a \<^verbatim>\<open>ppl::source\<close> throws
  \<^verbatim>\<open>no_such_slot\<close>.
\<close>

fun test_connect ::
  "test_node \<Rightarrow> node_id option \<Rightarrow> int \<Rightarrow> pipeline_error_kind option \<times> test_node" where
  "test_connect (test_sink s0) src slot =
     (None, if slot = 0 then test_sink src else test_sink s0)"
| "test_connect (test_sink_double s0) src slot =
     (None, if slot = 0 then test_sink_double src else test_sink_double s0)"
| "test_connect (test_source cur) src slot = (Some no_such_slot, test_source cur)"
| "test_connect (flex_source cur bound) src slot = (Some no_such_slot, flex_source cur bound)"
| "test_connect (skip_source cur bound) src slot = (Some no_such_slot, skip_source cur bound)"
| "test_connect (test_component s0 s1 cur) src slot =
     (None, if slot = 0 then test_component src s1 cur
            else if slot = 1 then test_component s0 src cur
            else test_component s0 s1 cur)"
| "test_connect (stream_sink s0 out) src slot =
     (None, if slot = 0 then stream_sink src out else stream_sink s0 out)"

text \<open>\<^verbatim>\<open>value()\<close> of the classes that are a \<^verbatim>\<open>producer<int>\<close>.\<close>

fun test_value :: "test_node \<Rightarrow> int option" where
  "test_value (test_source cur) = Some cur"
| "test_value (flex_source cur bound) = Some cur"
| "test_value (skip_source cur bound) = Some cur"
| "test_value (test_component s0 s1 cur) = Some cur"
| "test_value (test_sink s0) = None"
| "test_value (test_sink_double s0) = None"
| "test_value (stream_sink s0 out) = None"

text \<open>\<^verbatim>\<open>slot->value()\<close>: the pointer must refer to a live \<^verbatim>\<open>producer<int>\<close>.\<close>

definition slot_value :: "(node_id \<Rightarrow> test_node option) \<Rightarrow> node_id option \<Rightarrow> int option" where
  "slot_value heap slot =
     (case slot of
        None \<Rightarrow> None
      | Some i \<Rightarrow> (case heap i of None \<Rightarrow> None | Some obj \<Rightarrow> test_value obj))"

text \<open>\<^verbatim>\<open>stream << n\<close> for an \<^verbatim>\<open>int\<close>: the decimal digits, a minus sign first if negative.\<close>

fun digits_of :: "nat \<Rightarrow> string" where
  "digits_of n =
     (if n < 10 then [char_of (48 + n)] else digits_of (n div 10) @ [char_of (48 + n mod 10)])"

definition string_of_int :: "int \<Rightarrow> string" where
  "string_of_int i = (if i < 0 then CHR ''-'' # digits_of (nat (- i)) else digits_of (nat i))"

fun test_poll_next ::
  "(node_id \<Rightarrow> test_node option) \<Rightarrow> test_node \<Rightarrow> (poll \<times> test_node) option" where
  "test_poll_next heap (test_sink s0) =
     (case slot_value heap s0 of None \<Rightarrow> None | Some v \<Rightarrow> Some (ready, test_sink s0))"
| "test_poll_next heap (test_sink_double s0) = None"
| "test_poll_next heap (test_source cur) =
     (if cur \<ge> 10 then Some (closed, test_source cur) else Some (ready, test_source (cur + 1)))"
| "test_poll_next heap (flex_source cur bound) =
     (if cur \<ge> bound then Some (closed, flex_source cur bound)
      else Some (ready, flex_source (cur + 1) bound))"
| "test_poll_next heap (skip_source cur bound) =
     (if cur \<ge> bound then Some (closed, skip_source cur bound)
      else if cur mod 2 = 0 then Some (empty, skip_source (cur + 1) bound)
      else Some (ready, skip_source (cur + 1) bound))"
| "test_poll_next heap (test_component s0 s1 cur) =
     (case slot_value heap s0 of
        None \<Rightarrow> None
      | Some a \<Rightarrow>
          (case slot_value heap s1 of
             None \<Rightarrow> None
           | Some b \<Rightarrow> Some (ready, test_component s0 s1 (a + b))))"
| "test_poll_next heap (stream_sink s0 out) =
     (case slot_value heap s0 of
        None \<Rightarrow> None
      | Some v \<Rightarrow> Some (ready, stream_sink s0 (out @ string_of_int v @ '' '')))"

definition test_vtable :: "test_node vtable" where
  "test_vtable =
     \<lparr>get_input_types = test_input_types, get_output_type = test_output_type,
      node_connect = test_connect, node_poll_next = test_poll_next\<rparr>"

section \<open>The validator (pipeline.cpp, is_valid)\<close>

text \<open>
  The first loop of \<^verbatim>\<open>is_valid\<close>. The result is \<open>(ok, has_sink, has_source)\<close>, where \<open>ok\<close>
  is false when the loop left the function with \<^verbatim>\<open>return false\<close>. \<open>None\<close>: an exception
  of \<^verbatim>\<open>get_dependencies\<close> would leave a \<^verbatim>\<open>noexcept\<close> function.
\<close>

fun check_nodes ::
  "'u vtable \<Rightarrow> 'u pipeline \<Rightarrow> (node_id \<times> 'u node) list \<Rightarrow> bool \<Rightarrow> bool
     \<Rightarrow> (bool \<times> bool \<times> bool) option" where
  "check_nodes V p [] has_sink has_source = Some (True, has_sink, has_source)"
| "check_nodes V p ((n_id, node) # ns) has_sink has_source =
     (if length (connections node) \<noteq> length (get_input_types V (impl node))
      then Some (False, has_sink, has_source)
      else if get_output_type V (impl node) \<noteq> typeid_void
      then (case get_dependencies p n_id of
              Returns deps \<Rightarrow>
                if deps = [] then Some (False, has_sink, has_source)
                else check_nodes V p ns has_sink
                       (has_source \<or> get_input_types V (impl node) = [])
            | Throws e \<Rightarrow> None
            | Undefined \<Rightarrow> None)
      else check_nodes V p ns True (has_source \<or> get_input_types V (impl node) = []))"

text \<open>
  The \<^verbatim>\<open>std::unordered_map<node_id, int>\<close> of the two traversals, as the list of its
  entries: \<open>um_touch\<close> is the insertion \<^verbatim>\<open>operator[]\<close> makes for a key that is not there,
  \<open>um_get\<close> the value it then refers to, \<open>um_set\<close> the assignment \<^verbatim>\<open>visited[k] = v\<close>.
\<close>

definition um_touch :: "(int \<times> int) list \<Rightarrow> int \<Rightarrow> (int \<times> int) list" where
  "um_touch m k = (if map_of m k = None then (k, 0) # m else m)"

definition um_get :: "(int \<times> int) list \<Rightarrow> int \<Rightarrow> int" where
  "um_get m k = (case map_of m k of None \<Rightarrow> 0 | Some v \<Rightarrow> v)"

definition um_set :: "(int \<times> int) list \<Rightarrow> int \<Rightarrow> int \<Rightarrow> (int \<times> int) list" where
  "um_set m k v = map (\<lambda>item. if fst item = k then (k, v) else item) (um_touch m k)"

text \<open>
  The recursive lambda \<^verbatim>\<open>has_cycle\<close> and its loop over the connections. The first
  argument bounds the depth of the recursion: \<open>None\<close> when it is used up, and when
  \<^verbatim>\<open>get_node\<close> gives a null pointer.
\<close>

fun has_cycle ::
  "nat \<Rightarrow> 'u pipeline \<Rightarrow> node_id \<Rightarrow> (int \<times> int) list \<Rightarrow> (bool \<times> (int \<times> int) list) option"
and has_cycle_loop ::
  "nat \<Rightarrow> 'u pipeline \<Rightarrow> (int \<times> node_id) list \<Rightarrow> (int \<times> int) list
     \<Rightarrow> (bool \<times> (int \<times> int) list) option" where
  "has_cycle 0 p src visited = None"
| "has_cycle (Suc fuel) p src visited =
     (let v1 = um_touch visited src in
      if um_get v1 src = 1 then Some (True, v1)
      else if um_get v1 src = 2 then Some (False, v1)
      else
        (case get_node p src of
           None \<Rightarrow> None
         | Some node \<Rightarrow>
             (case has_cycle_loop fuel p (connections node) (um_set v1 src 1) of
                None \<Rightarrow> None
              | Some (found, v2) \<Rightarrow>
                  if found then Some (True, v2) else Some (False, um_set v2 src 2))))"
| "has_cycle_loop fuel p [] visited = Some (False, visited)"
| "has_cycle_loop fuel p ((slot, next_src) # cs) visited =
     (case has_cycle fuel p next_src visited of
        None \<Rightarrow> None
      | Some (found, v1) \<Rightarrow>
          if found then Some (True, v1) else has_cycle_loop fuel p cs v1)"

text \<open>The loop that starts \<^verbatim>\<open>has_cycle\<close> at every sink; \<open>Some True\<close>: a cycle was found.\<close>

fun cycle_from_sinks ::
  "nat \<Rightarrow> 'u vtable \<Rightarrow> 'u pipeline \<Rightarrow> (node_id \<times> 'u node) list \<Rightarrow> (int \<times> int) list
     \<Rightarrow> bool option" where
  "cycle_from_sinks fuel V p [] visited = Some False"
| "cycle_from_sinks fuel V p ((n_id, node) # ns) visited =
     (if get_output_type V (impl node) = typeid_void
      then (case has_cycle fuel p n_id visited of
              None \<Rightarrow> None
            | Some (found, v1) \<Rightarrow>
                if found then Some True else cycle_from_sinks fuel V p ns v1)
      else cycle_from_sinks fuel V p ns visited)"

text \<open>The recursive lambda \<^verbatim>\<open>dfs_all\<close> and its two loops.\<close>

fun dfs_all :: "nat \<Rightarrow> 'u pipeline \<Rightarrow> node_id \<Rightarrow> (int \<times> int) list \<Rightarrow> (int \<times> int) list option"
and dfs_all_loop ::
  "nat \<Rightarrow> 'u pipeline \<Rightarrow> node_id list \<Rightarrow> (int \<times> int) list \<Rightarrow> (int \<times> int) list option" where
  "dfs_all 0 p src visited = None"
| "dfs_all (Suc fuel) p src visited =
     (let v1 = um_touch visited src in
      if um_get v1 src = 1 then Some v1
      else
        (case get_node p src of
           None \<Rightarrow> None
         | Some node \<Rightarrow>
             (case dfs_all_loop fuel p (map snd (connections node)) (um_set v1 src 1) of
                None \<Rightarrow> None
              | Some v2 \<Rightarrow> dfs_all_loop fuel p (map fst (dependencies node)) v2)))"
| "dfs_all_loop fuel p [] visited = Some visited"
| "dfs_all_loop fuel p (next_src # ns) visited =
     (case dfs_all fuel p next_src visited of
        None \<Rightarrow> None
      | Some v1 \<Rightarrow> dfs_all_loop fuel p ns v1)"

definition is_valid :: "nat \<Rightarrow> 'u vtable \<Rightarrow> 'u pipeline \<Rightarrow> bool option" where
  "is_valid fuel V p =
     (case check_nodes V p (nodes p) False False of
        None \<Rightarrow> None
      | Some (ok, has_sink, has_source) \<Rightarrow>
          if \<not> ok then Some False
          else if \<not> has_sink then Some False
          else if \<not> has_source then Some False
          else
            (case cycle_from_sinks fuel V p (nodes p) [] of
               None \<Rightarrow> None
             | Some found \<Rightarrow>
                 if found then Some False
                 else
                   (case nodes p of
                      [] \<Rightarrow> Some True
                    | (n_id, node) # ns \<Rightarrow>
                        (case dfs_all fuel p n_id [] of
                           None \<Rightarrow> None
                         | Some visited_all \<Rightarrow>
                             if length visited_all \<noteq> length (nodes p) then Some False
                             else Some True))))"

section \<open>The scheduler (pipeline.cpp, step and run)\<close>

text \<open>
  The state of one tick: \<open>visited\<close> is the \<^verbatim>\<open>std::unordered_map<node_id, ppl::poll>\<close> of
  \<^verbatim>\<open>step\<close>, \<open>pl\<close> the pipeline with its objects as the calls of \<^verbatim>\<open>poll_next\<close> have left
  them, and \<open>polled\<close> records, in order, the nodes whose \<^verbatim>\<open>poll_next\<close> the tick has called
  (the code keeps no such list; it is what the claims about calls speak of).
\<close>

record 'u tick =
  visited :: "node_id \<Rightarrow> poll option"
  pl :: "'u pipeline"
  polled :: "node_id list"

text \<open>
  The recursive lambda \<^verbatim>\<open>polling\<close> and its loop over the connections, which gives
  \<open>Some res\<close> when it left the lambda with \<open>res\<close>. The first argument bounds the depth of
  the recursion; \<open>None\<close> is a call that does not return.
\<close>

fun polling :: "nat \<Rightarrow> 'u vtable \<Rightarrow> node_id \<Rightarrow> 'u tick \<Rightarrow> (poll \<times> 'u tick) option"
and polling_loop ::
  "nat \<Rightarrow> 'u vtable \<Rightarrow> (int \<times> node_id) list \<Rightarrow> 'u tick \<Rightarrow> (poll option \<times> 'u tick) option" where
  "polling 0 V src t = None"
| "polling (Suc fuel) V src t =
     (case visited t src of
        Some res \<Rightarrow> Some (res, t)
      | None \<Rightarrow>
          (case get_node (pl t) src of
             None \<Rightarrow> None
           | Some node \<Rightarrow>
               (case polling_loop fuel V (connections node) t of
                  None \<Rightarrow> None
                | Some (Some res, t1) \<Rightarrow> Some (res, t1\<lparr>visited := (visited t1)(src \<mapsto> res)\<rparr>)
                | Some (None, t1) \<Rightarrow>
                    (case get_node (pl t1) src of
                       None \<Rightarrow> None
                     | Some node1 \<Rightarrow>
                         (case node_poll_next V (\<lambda>i. map_option impl (get_node (pl t1) i))
                                 (impl node1) of
                            None \<Rightarrow> None
                          | Some (res, obj) \<Rightarrow>
                              Some (res,
                                t1\<lparr>visited := (visited t1)(src \<mapsto> res),
                                   pl := put_node src (node1\<lparr>impl := obj\<rparr>) (pl t1),
                                   polled := polled t1 @ [src]\<rparr>))))))"
| "polling_loop fuel V [] t = Some (None, t)"
| "polling_loop fuel V ((slot, next_src) # cs) t =
     (case polling fuel V next_src t of
        None \<Rightarrow> None
      | Some (res, t1) \<Rightarrow>
          if res = empty then Some (Some empty, t1)
          else if res = closed then Some (Some closed, t1)
          else polling_loop fuel V cs t1)"

text \<open>The loop of \<^verbatim>\<open>step\<close> over \<^verbatim>\<open>nodes_\<close>; the flag is \<^verbatim>\<open>is_all_closed\<close>.\<close>

fun step_loop ::
  "nat \<Rightarrow> 'u vtable \<Rightarrow> node_id list \<Rightarrow> bool \<Rightarrow> 'u tick \<Rightarrow> (bool \<times> 'u tick) option" where
  "step_loop fuel V [] is_all_closed t = Some (is_all_closed, t)"
| "step_loop fuel V (n_id # ns) is_all_closed t =
     (case get_node (pl t) n_id of
        None \<Rightarrow> None
      | Some node \<Rightarrow>
          if get_output_type V (impl node) = typeid_void
          then (case polling fuel V n_id t of
                  None \<Rightarrow> None
                | Some (res, t1) \<Rightarrow>
                    step_loop fuel V ns (if res \<noteq> closed then False else is_all_closed) t1)
          else step_loop fuel V ns is_all_closed t)"

definition step_tick :: "nat \<Rightarrow> 'u vtable \<Rightarrow> 'u pipeline \<Rightarrow> (bool \<times> 'u tick) option" where
  "step_tick fuel V p =
     step_loop fuel V (map fst (nodes p)) True \<lparr>visited = Map.empty, pl = p, polled = []\<rparr>"

definition step :: "nat \<Rightarrow> 'u vtable \<Rightarrow> 'u pipeline \<Rightarrow> (bool \<times> 'u pipeline) option" where
  "step fuel V p = map_option (\<lambda>r. (fst r, pl (snd r))) (step_tick fuel V p)"

text \<open>\<^verbatim>\<open>while (!step()) {}\<close>: \<open>None\<close> when the loop, or a tick of it, does not end.\<close>

partial_function (option) run :: "nat \<Rightarrow> 'u vtable \<Rightarrow> 'u pipeline \<Rightarrow> 'u pipeline option" where
  "run fuel V p =
     (case step fuel V p of
        None \<Rightarrow> None
      | Some r \<Rightarrow> if fst r then Some (snd r) else run fuel V (snd r))"

section \<open>Moving a pipeline (pipeline.cpp)\<close>

text \<open>
  The pipeline objects of a program, by address: the move operations act on two of them,
  which the assignment compares. The move constructor initialises \<^verbatim>\<open>nodes_\<close> only, so the
  counter of the new object has an indeterminate value, the argument \<open>cid\<close>.
\<close>

type_synonym 'u pipelines = "nat \<Rightarrow> 'u pipeline"

definition move_construct :: "'u pipelines \<Rightarrow> nat \<Rightarrow> nat \<Rightarrow> node_id \<Rightarrow> 'u pipelines" where
  "move_construct st this other cid =
     (let st1 = st(this := \<lparr>nodes = nodes (st other), current_id = cid\<rparr>)
      in st1(other := (st1 other)\<lparr>nodes := []\<rparr>))"

definition move_assign :: "'u pipelines \<Rightarrow> nat \<Rightarrow> nat \<Rightarrow> 'u pipelines" where
  "move_assign st this other =
     (if this \<noteq> other
      then (let st1 = st(this := (st this)\<lparr>nodes := nodes (st other)\<rparr>)
            in st1(other := (st1 other)\<lparr>nodes := []\<rparr>))
      else st)"

section \<open>Pipelines of the test suite\<close>

text \<open>
  A test's set-up: the nodes are created in the order of \<open>objs\<close>, so that they get the
  ids 1, 2, ..., and each \<open>(src, dst, slot)\<close> of \<open>wires\<close> is then connected in order.
\<close>

definition build :: "'u vtable \<Rightarrow> 'u list \<Rightarrow> (node_id \<times> node_id \<times> int) list \<Rightarrow> 'u pipeline" where
  "build V objs wires =
     foldl (\<lambda>p w. snd (connect V p (fst w) (fst (snd w)) (snd (snd w))))
       (foldl (\<lambda>p obj. snd (create_node p obj)) pipeline_init objs) wires"

text \<open>Test Case 9: a sink fed by a source, and a sink for doubles.\<close>

definition tc9 :: "test_node pipeline" where
  "tc9 = build test_vtable [test_sink None, test_source 0, test_sink_double None] [(2, 1, 0)]"

text \<open>
  Test Cases 20 and 23 (scenario S1 of the specification): sources of bounds 5 and 10
  (ids 1 and 2) feed the component (id 3), which feeds the stream sink A (id 4); the
  second source feeds the stream sink B (id 5) too.
\<close>

definition s1 :: "test_node pipeline" where
  "s1 = build test_vtable
     [flex_source 0 5, flex_source 0 10, test_component None None 0,
      stream_sink None [], stream_sink None []]
     [(1, 3, 0), (2, 3, 1), (3, 4, 0), (2, 5, 0)]"

text \<open>
  A pipeline with a cycle that no sink is downstream of: the source (id 2) feeds the
  sink (id 1) and slot 0 of both components (ids 3 and 4), and each component feeds
  slot 1 of the other.
\<close>

definition unreached_cycle :: "test_node pipeline" where
  "unreached_cycle = build test_vtable
     [test_sink None, test_source 0, test_component None None 0, test_component None None 0]
     [(2, 1, 0), (2, 3, 0), (2, 4, 0), (4, 3, 1), (3, 4, 1)]"

section \<open>What the claims observe\<close>

text \<open>
  The state of the registry that the editing operations maintain: the live ids, in the
  order of \<^verbatim>\<open>nodes_\<close>, each with the connections and the dependencies of its node.
\<close>

definition bookkeeping ::
  "'u pipeline \<Rightarrow> (node_id \<times> (int \<times> node_id) list \<times> (node_id \<times> int) list) list" where
  "bookkeeping p =
     map (\<lambda>item. (fst item, connections (snd item), dependencies (snd item))) (nodes p)"

text \<open>
  The graph of a pipeline: for each live id the connections and the dependencies of its
  node.
\<close>

type_synonym graph = "node_id \<Rightarrow> ((int \<times> node_id) list \<times> (node_id \<times> int) list) option"

definition graph :: "'u pipeline \<Rightarrow> graph" where
  "graph p n_id = map_option (\<lambda>n. (connections n, dependencies n)) (get_node p n_id)"

text \<open>
  The mirror invariant: the slots of a node have different keys; an entry
  \<open>slot \<rightarrow> up\<close> of the connections of a live node \<open>n\<close> means that \<open>up\<close> is live and has the
  entry \<open>(n, slot)\<close> exactly once in its dependencies; and an entry \<open>(d, slot)\<close> of the
  dependencies of a live node \<open>n\<close> means that \<open>d\<close> is live and its connections map \<open>slot\<close>
  to \<open>n\<close>.
\<close>

definition mirror :: "'u pipeline \<Rightarrow> bool" where
  "mirror p \<longleftrightarrow>
     (\<forall>n node. get_node p n = Some node \<longrightarrow>
        distinct (map fst (connections node))
        \<and> (\<forall>slot up. (slot, up) \<in> set (connections node) \<longrightarrow>
              (\<exists>u. get_node p up = Some u \<and> count_list (dependencies u) (n, slot) = 1))
        \<and> (\<forall>d slot. (d, slot) \<in> set (dependencies node) \<longrightarrow>
              (\<exists>dn. get_node p d = Some dn \<and> map_of (connections dn) slot = Some n)))"

text \<open>The same invariant, of a graph; and what the editing operations do to the graph.\<close>

definition mirror_g :: "graph \<Rightarrow> bool" where
  "mirror_g G \<longleftrightarrow>
     (\<forall>n cs ds. G n = Some (cs, ds) \<longrightarrow>
        distinct (map fst cs)
        \<and> (\<forall>slot up. (slot, up) \<in> set cs \<longrightarrow>
              (\<exists>ucs uds. G up = Some (ucs, uds) \<and> count_list uds (n, slot) = 1))
        \<and> (\<forall>d slot. (d, slot) \<in> set ds \<longrightarrow>
              (\<exists>dcs dds. G d = Some (dcs, dds) \<and> map_of dcs slot = Some n)))"

definition g_connect :: "graph \<Rightarrow> node_id \<Rightarrow> node_id \<Rightarrow> int \<Rightarrow> graph" where
  "g_connect G src dst slot n =
     map_option (\<lambda>g. ((if n = dst then [(slot, src)] else []) @ fst g,
                       snd g @ (if n = src then [(dst, slot)] else []))) (G n)"

definition g_disconnect :: "graph \<Rightarrow> node_id \<Rightarrow> node_id \<Rightarrow> graph" where
  "g_disconnect G src dst n =
     map_option (\<lambda>g. (if n = dst then filter (\<lambda>item. snd item \<noteq> src) (fst g) else fst g,
                       if n = src then filter (\<lambda>item. fst item \<noteq> dst) (snd g) else snd g)) (G n)"

definition g_erase :: "graph \<Rightarrow> node_id \<Rightarrow> graph" where
  "g_erase G n_id n =
     (if n = n_id then None
      else map_option (\<lambda>g. (filter (\<lambda>item. snd item \<noteq> n_id) (fst g),
                             filter (\<lambda>item. fst item \<noteq> n_id) (snd g))) (G n))"

text \<open>A node once every entry that names \<open>n_id\<close> is gone from its two containers.\<close>

definition without :: "node_id \<Rightarrow> 'u node \<Rightarrow> 'u node" where
  "without n_id n =
     n\<lparr>connections := filter (\<lambda>item. snd item \<noteq> n_id) (connections n),
       dependencies := filter (\<lambda>item. fst item \<noteq> n_id) (dependencies n)\<rparr>"

text \<open>
  The states a pipeline can be in: a new pipeline, and every state that a call of an
  editing operation (whether it returns or throws), a tick that returns, or a move
  leaves behind. A pipeline moved to keeps or receives a counter that has nothing to do
  with the nodes it receives.
\<close>

inductive reachable :: "'u vtable \<Rightarrow> 'u pipeline \<Rightarrow> bool" for V :: "'u vtable" where
  r_init: "reachable V pipeline_init"
| r_create: "reachable V p \<Longrightarrow> reachable V (snd (create_node p obj))"
| r_connect: "reachable V p \<Longrightarrow> reachable V (snd (connect V p src dst slot))"
| r_disconnect: "reachable V p \<Longrightarrow> reachable V (snd (disconnect V p src dst))"
| r_erase: "reachable V p \<Longrightarrow> reachable V (snd (erase_node p n_id))"
| r_step: "reachable V p \<Longrightarrow> step fuel V p = Some (b, p') \<Longrightarrow> reachable V p'"
| r_move_to: "reachable V p \<Longrightarrow> reachable V \<lparr>nodes = nodes p, current_id = cid\<rparr>"
| r_move_from: "reachable V p \<Longrightarrow> reachable V (p\<lparr>nodes := []\<rparr>)"

declare run.simps [code]

section \<open>The memo of a tick\<close>

text \<open>
  The map \<^verbatim>\<open>visited\<close> of \<^verbatim>\<open>step\<close>, from node ids to the poll result a node got in this tick.
\<close>

type_synonym memo = "node_id \<Rightarrow> poll option"

text \<open>
  \<open>leads_to G M x y\<close>: the loop of \<^verbatim>\<open>polling x\<close> over the connections of \<open>x\<close> reaches the
  upstream \<open>y\<close>, every upstream before it in the iteration order being memoised \<open>ready\<close>.
\<close>

definition leads_to :: "graph \<Rightarrow> memo \<Rightarrow> node_id \<Rightarrow> node_id \<Rightarrow> bool" where
  "leads_to G M x y \<longleftrightarrow>
     (\<exists>pre slot post ds. G x = Some (pre @ (slot, y) # post, ds)
        \<and> (\<forall>item \<in> set pre. M (snd item) = Some ready))"

text \<open>
  The memo only grows within a tick.
\<close>

definition memo_le :: "memo \<Rightarrow> memo \<Rightarrow> bool" where
  "memo_le M M' \<longleftrightarrow> (\<forall>m r. M m = Some r \<longrightarrow> M' m = Some r)"

text \<open>
  \<open>pending G M S x\<close>: the nodes of \<open>S\<close> are the calls of \<^verbatim>\<open>polling\<close> in progress below which
  \<^verbatim>\<open>polling x\<close> runs: none has a memo entry yet, and the loop of each stands at another
  node of \<open>S\<close> or at \<open>x\<close>.
\<close>

definition pending :: "graph \<Rightarrow> memo \<Rightarrow> node_id set \<Rightarrow> node_id \<Rightarrow> bool" where
  "pending G M S x \<longleftrightarrow>
     (\<forall>s \<in> S. M s = None \<and> ((\<exists>s' \<in> S. leads_to G M s s') \<or> leads_to G M s x))"

text \<open>
  \<open>explained G M L\<close>: \<open>L\<close> lists the nodes whose \<^verbatim>\<open>poll_next\<close> ran, each once and each with a
  memo entry; and every memo entry of a node is accounted for by its connections, read in
  iteration order: the first upstream whose entry is not \<open>ready\<close> gave the node its entry,
  and the node was not polled; with no such upstream the node was polled.
\<close>

definition explained :: "graph \<Rightarrow> memo \<Rightarrow> node_id list \<Rightarrow> bool" where
  "explained G M L \<longleftrightarrow>
     distinct L \<and> set L \<subseteq> dom M
     \<and> (\<forall>n r cs ds. M n = Some r \<and> G n = Some (cs, ds) \<longrightarrow>
          (case find (\<lambda>item. M (snd item) \<noteq> Some ready) cs of
             None \<Rightarrow> n \<in> set L
           | Some item \<Rightarrow> M (snd item) = Some r \<and> r \<noteq> ready \<and> n \<notin> set L))"

definition tick_inv :: "graph \<Rightarrow> 'u tick \<Rightarrow> bool" where
  "tick_inv G t \<longleftrightarrow> graph (pl t) = G \<and> explained G (visited t) (polled t)"



text \<open>
  \<open>after_ticks k fuel V p\<close>: the pipeline after \<open>k\<close> calls of \<^verbatim>\<open>step\<close> that all returned false.
\<close>

fun after_ticks :: "nat \<Rightarrow> nat \<Rightarrow> 'u vtable \<Rightarrow> 'u pipeline \<Rightarrow> 'u pipeline option" where
  "after_ticks 0 fuel V p = Some p"
| "after_ticks (Suc k) fuel V p =
     (case step fuel V p of
        None \<Rightarrow> None
      | Some r \<Rightarrow> if fst r then None else after_ticks k fuel V (snd r))"

section \<open>When a tick returns\<close>









section \<open>Further pipelines over the nodes of the test suite\<close>

text \<open>
  A component (id 4) fed by a skip source (id 1, \<open>empty\<close> at its first poll) and by a source
  of bound 0 (id 2, \<open>closed\<close> at its first poll); a sink (id 3) on the closed source and a
  sink (id 5) on the component. The three pipelines differ only in the slot each source
  feeds and in the order of the two calls of \<open>connect\<close>, and so in the iteration order of
  the connections of the component.
\<close>

definition order_a :: "test_node pipeline" where
  "order_a = build test_vtable
     [skip_source 0 6, flex_source 0 0, stream_sink None [], test_component None None 0,
      stream_sink None []]
     [(2, 3, 0), (2, 4, 1), (1, 4, 0), (4, 5, 0)]"

definition order_b :: "test_node pipeline" where
  "order_b = build test_vtable
     [skip_source 0 6, flex_source 0 0, stream_sink None [], test_component None None 0,
      stream_sink None []]
     [(2, 3, 0), (1, 4, 0), (2, 4, 1), (4, 5, 0)]"

definition order_c :: "test_node pipeline" where
  "order_c = build test_vtable
     [skip_source 0 6, flex_source 0 0, stream_sink None [], test_component None None 0,
      stream_sink None []]
     [(2, 3, 0), (2, 4, 0), (1, 4, 1), (4, 5, 0)]"



text \<open>
  Scenario S1 with the two slots of the component connected in the other order.
\<close>

definition s1_swapped :: "test_node pipeline" where
  "s1_swapped = build test_vtable
     [flex_source 0 5, flex_source 0 10, test_component None None 0,
      stream_sink None [], stream_sink None []]
     [(2, 3, 1), (1, 3, 0), (3, 4, 0), (2, 5, 0)]"

section \<open>Evaluating the test pipelines\<close>

lemma tc9_eval:
  "tc9 = \<lparr>nodes =
     [(1, \<lparr>impl = test_sink (Some 2), connections = [(0, 2)], dependencies = []\<rparr>),
      (2, \<lparr>impl = test_source 0, connections = [], dependencies = [(1, 0)]\<rparr>),
      (3, \<lparr>impl = test_sink_double None, connections = [], dependencies = []\<rparr>)],
     current_id = 4\<rparr>"
  by (simp add: tc9_def build_def connect_def create_node_def pipeline_init_def get_node_def
      put_node_def umap_emplace_def map_emplace_def test_vtable_def)

lemma s1_eval:
  "s1 = \<lparr>nodes =
     [(1, \<lparr>impl = flex_source 0 5, connections = [], dependencies = [(3, 0)]\<rparr>),
      (2, \<lparr>impl = flex_source 0 10, connections = [], dependencies = [(3, 1), (5, 0)]\<rparr>),
      (3, \<lparr>impl = test_component (Some 1) (Some 2) 0, connections = [(1, 2), (0, 1)],
          dependencies = [(4, 0)]\<rparr>),
      (4, \<lparr>impl = stream_sink (Some 3) [], connections = [(0, 3)], dependencies = []\<rparr>),
      (5, \<lparr>impl = stream_sink (Some 2) [], connections = [(0, 2)], dependencies = []\<rparr>)],
     current_id = 6\<rparr>"
  by (simp add: s1_def build_def connect_def create_node_def pipeline_init_def get_node_def
      put_node_def umap_emplace_def map_emplace_def test_vtable_def)

lemma reachable_build: "reachable V (build V objs wires)"
proof -
  have a: "reachable V p \<Longrightarrow> reachable V (foldl (\<lambda>p obj. snd (create_node p obj)) p objs)" for p
    by (induction objs arbitrary: p) (auto intro: reachable.intros)
  have b: "reachable V p \<Longrightarrow>
      reachable V (foldl (\<lambda>p w. snd (connect V p (fst w) (fst (snd w)) (snd (snd w)))) p wires)" for p
    by (induction wires arbitrary: p) (auto intro: reachable.intros)
  show ?thesis unfolding build_def by (intro a b r_init)
qed

section \<open>Reading and writing nodes\<close>

lemma map_of_assign_at:
  "map_of (assign_at k v m) j = (if j = k \<and> map_of m k \<noteq> None then Some v else map_of m j)"
  by (induction m) auto

lemma get_node_put_node:
  "get_node (put_node k n p) j = (if j = k \<and> get_node p k \<noteq> None then Some n else get_node p j)"
  by (simp add: get_node_def put_node_def map_of_assign_at)

lemma bookkeeping_assign_at:
  "map_of m k = Some n0 \<Longrightarrow> connections n = connections n0 \<Longrightarrow> dependencies n = dependencies n0
   \<Longrightarrow> map (\<lambda>item. (fst item, connections (snd item), dependencies (snd item))) (assign_at k n m)
     = map (\<lambda>item. (fst item, connections (snd item), dependencies (snd item))) m"
  by (induction m) (auto split: if_splits)

lemma bookkeeping_put_node:
  "get_node p k = Some n0 \<Longrightarrow> connections n = connections n0 \<Longrightarrow> dependencies n = dependencies n0
   \<Longrightarrow> bookkeeping (put_node k n p) = bookkeeping p"
  by (simp add: bookkeeping_def put_node_def get_node_def bookkeeping_assign_at)

section \<open>The checks of connect\<close>

text \<open>
  C4. When several preconditions of \<open>connect src dst slot\<close> fail at once, the kind thrown
  is that of the first failing check in the order: \<open>invalid_node_id\<close> (one of the ids is
  not a live node), \<open>slot_already_used\<close> (the connections of \<open>dst\<close> have the key \<open>slot\<close>),
  \<open>no_such_slot\<close> (\<open>slot < 0\<close> or \<open>slot\<close> is not below the arity of \<open>dst\<close>),
  \<open>connection_type_mismatch\<close> (the output type of \<open>src\<close> is not the input type of the
  slot). Each of the four lines holds whatever the later checks would say.
\<close>

theorem connect_error_order:
  "(get_node p src = None \<or> get_node p dst = None
      \<longrightarrow> fst (connect V p src dst slot) = Throws invalid_node_id)
   \<and> (get_node p src = Some sn \<and> get_node p dst = Some dn
        \<and> map_of (connections dn) slot \<noteq> None
      \<longrightarrow> fst (connect V p src dst slot) = Throws slot_already_used)
   \<and> (get_node p src = Some sn \<and> get_node p dst = Some dn
        \<and> map_of (connections dn) slot = None
        \<and> (slot < 0 \<or> int (length (get_input_types V (impl dn))) \<le> slot)
      \<longrightarrow> fst (connect V p src dst slot) = Throws no_such_slot)
   \<and> (get_node p src = Some sn \<and> get_node p dst = Some dn
        \<and> map_of (connections dn) slot = None
        \<and> 0 \<le> slot \<and> slot < int (length (get_input_types V (impl dn)))
        \<and> get_output_type V (impl sn) \<noteq> get_input_types V (impl dn) ! nat slot
      \<longrightarrow> fst (connect V p src dst slot) = Throws connection_type_mismatch)"
  by (auto simp: connect_def split: option.splits)

theorem connect_error_order_witness:
  "get_node tc9 7 = None \<and> map_of (connections (the (get_node tc9 1))) 0 = Some 2
   \<and> fst (connect test_vtable tc9 7 1 0) = Throws invalid_node_id
   \<and> get_output_type test_vtable (impl (the (get_node tc9 1))) = typeid_void
   \<and> fst (connect test_vtable tc9 1 1 0) = Throws slot_already_used
   \<and> fst (connect test_vtable tc9 1 1 (- 1)) = Throws no_such_slot
   \<and> fst (connect test_vtable tc9 2 3 0) = Throws connection_type_mismatch"
  using connect_error_order [of tc9 7 1 test_vtable 0]
    connect_error_order [of tc9 1 1 test_vtable 0 "the (get_node tc9 1)" "the (get_node tc9 1)"]
    connect_error_order [of tc9 1 1 test_vtable "- 1" "the (get_node tc9 1)" "the (get_node tc9 1)"]
    connect_error_order [of tc9 2 3 test_vtable 0 "the (get_node tc9 2)" "the (get_node tc9 3)"]
  by (simp add: tc9_eval get_node_def test_vtable_def)

section \<open>Failing edits\<close>

text \<open>
  C5. When \<open>connect\<close> or \<open>erase_node\<close> throws a \<open>pipeline_error\<close>, the live ids, every
  node's connections and every node's dependencies are those of the state before the
  call. (\<open>erase_node\<close> and the four checks of \<open>connect\<close> throw before anything is written;
  an error thrown by the node's own \<open>connect\<close> callback leaves the three unchanged too.)
\<close>

theorem failed_edit_unchanged:
  "(connect V p src dst slot = (Throws k, p')
      \<longrightarrow> bookkeeping p' = bookkeeping p \<and> current_id p' = current_id p)
   \<and> (erase_node p n_id = (Throws k, p') \<longrightarrow> p' = p)"
proof (intro conjI impI)
  assume "erase_node p n_id = (Throws k, p')"
  then show "p' = p"
    by (auto simp: erase_node_def split: option.splits)
next
  assume c: "connect V p src dst slot = (Throws k, p')"
  show "bookkeeping p' = bookkeeping p"
    using c
    by (auto simp: connect_def Let_def bookkeeping_put_node
        split: option.splits if_splits prod.splits)
  show "current_id p' = current_id p"
    using c
    by (auto simp: connect_def Let_def put_node_def split: option.splits if_splits prod.splits)
qed

theorem failed_edit_unchanged_witness:
  "connect test_vtable tc9 2 3 0 = (Throws connection_type_mismatch, tc9)
   \<and> bookkeeping tc9 = [(1, [(0, 2)], []), (2, [], [(1, 0)]), (3, [], [])]
   \<and> erase_node tc9 3 = (Returns (), tc9\<lparr>nodes := butlast (nodes tc9)\<rparr>)
   \<and> erase_node tc9 9 = (Throws invalid_node_id, tc9)"
  using failed_edit_unchanged [of test_vtable tc9 2 3 0 connection_type_mismatch tc9 9]
  by (simp add: tc9_eval connect_def erase_node_def get_node_def test_vtable_def bookkeeping_def)

section \<open>Moving\<close>

text \<open>
  C9. After \<open>p2 = move(p)\<close>, by the move assignment or by the move constructor, with \<open>p\<close>
  the object at \<open>other\<close> and \<open>p2\<close> the one at \<open>this\<close>: \<open>get_node\<close> of \<open>p\<close> gives no node for
  any id, \<open>get_node\<close> of \<open>p2\<close> gives for every id what \<open>get_node\<close> of \<open>p\<close> gave before, and
  \<open>create_node\<close> on \<open>p\<close> registers the new node under the id of the counter \<open>p\<close> had. A
  move assignment of an object to itself changes nothing.
\<close>

theorem move_semantics:
  "(this \<noteq> other \<longrightarrow>
      get_node (move_assign st this other other) n_id = None
      \<and> get_node (move_assign st this other this) n_id = get_node (st other) n_id
      \<and> create_node (move_assign st this other other) obj
          = (current_id (st other),
             \<lparr>nodes = [(current_id (st other),
                        \<lparr>impl = obj, connections = [], dependencies = []\<rparr>)],
              current_id = current_id (st other) + 1\<rparr>)
      \<and> get_node (move_construct st this other cid other) n_id = None
      \<and> get_node (move_construct st this other cid this) n_id = get_node (st other) n_id
      \<and> create_node (move_construct st this other cid other) obj
          = (current_id (st other),
             \<lparr>nodes = [(current_id (st other),
                        \<lparr>impl = obj, connections = [], dependencies = []\<rparr>)],
              current_id = current_id (st other) + 1\<rparr>))
   \<and> move_assign st this this = st"
  by (simp add: move_assign_def move_construct_def get_node_def create_node_def Let_def
      map_emplace_def)

theorem move_semantics_witness:
  "get_node tc9 2 = Some \<lparr>impl = test_source 0, connections = [], dependencies = [(1, 0)]\<rparr>
   \<and> get_node (move_assign ((\<lambda>a. pipeline_init)(0 := tc9)) 1 0 0) 2 = None
   \<and> get_node (move_assign ((\<lambda>a. pipeline_init)(0 := tc9)) 1 0 1) 2 = get_node tc9 2
   \<and> fst (create_node (move_assign ((\<lambda>a. pipeline_init)(0 := tc9)) 1 0 0) (test_sink None)) = 4
   \<and> get_node (move_construct ((\<lambda>a. pipeline_init)(0 := tc9)) 1 0 7 1) 2 = get_node tc9 2
   \<and> move_assign ((\<lambda>a. pipeline_init)(0 := tc9)) 0 0 0 = tc9"
  using move_semantics [of 1 0 "(\<lambda>a. pipeline_init)(0 := tc9)" 2 "test_sink None" 7]
  by (simp add: tc9_eval get_node_def move_assign_def move_construct_def create_node_def
      map_emplace_def)

section \<open>The validator and cycles\<close>

text \<open>
  C2 (the code departs from the claim). On the pipeline \<open>unreached_cycle\<close>, which the
  editing operations build, every slot is filled, every node but the sink has a
  dependent, there is a sink and a source, and the graph is weakly connected; the two
  components feed each other, and \<open>is_valid\<close> returns true: its search for a cycle starts
  at the sinks and follows the connections, so it never enters this cycle.
\<close>

theorem is_valid_misses_cycle:
  "is_valid 5 test_vtable unreached_cycle = Some True
   \<and> map_of (connections (the (get_node unreached_cycle 3))) 1 = Some 4
   \<and> map_of (connections (the (get_node unreached_cycle 4))) 1 = Some 3"
  by code_simp

section \<open>The graph under the editing operations\<close>

lemma mirror_graph: "mirror p \<longleftrightarrow> mirror_g (graph p)"
  unfolding mirror_def mirror_g_def graph_def
  apply (rule iffI)
   apply (intro allI impI)
   apply (clarsimp)
   apply (rename_tac n node)
   apply (drule_tac x = n in spec, drule_tac x = node in spec)
   apply fastforce
  apply (intro allI impI)
  apply (rename_tac n node)
  apply (drule_tac x = n in spec, drule_tac x = "connections node" in spec,
      drule_tac x = "dependencies node" in spec)
  apply fastforce
  done

lemma graph_put_node:
  "graph (put_node k n p) j =
     (if j = k \<and> graph p k \<noteq> None then Some (connections n, dependencies n) else graph p j)"
  by (simp add: graph_def get_node_put_node)

lemma map_of_map_insert:
  "map_of m k = None \<Longrightarrow> map_of (map_insert k v m) j = (if j = k then Some v else map_of m j)"
  by (induction m) (auto split: if_splits)

lemma get_node_create_node:
  "get_node (snd (create_node p obj)) j =
     (if j = current_id p \<and> get_node p j = None
      then Some \<lparr>impl = obj, connections = [], dependencies = []\<rparr> else get_node p j)"
  by (auto simp: create_node_def get_node_def map_emplace_def map_of_map_insert)

lemma graph_create_node:
  "graph (snd (create_node p obj)) j =
     (if j = current_id p \<and> graph p j = None then Some ([], []) else graph p j)"
  by (auto simp: graph_def get_node_create_node)

lemma mirror_g_create:
  assumes "mirror_g G" "G k = None"
  shows "mirror_g (G(k \<mapsto> ([], [])))"
  using assms unfolding mirror_g_def
  apply (intro allI impI)
  apply (rename_tac n cs ds)
  apply (case_tac "n = k")
   apply simp
  apply (drule_tac x = n in spec, drule_tac x = cs in spec, drule_tac x = ds in spec)
  apply (simp)
  apply (intro conjI allI impI)
   apply (metis option.distinct(1))
  apply (metis option.distinct(1))
  done

lemma connect_graph:
  assumes "connect V p src dst slot = (r, p')"
  shows "(r = Returns () \<longrightarrow>
            graph p' = g_connect (graph p) src dst slot \<and> graph p src \<noteq> None
            \<and> (\<exists>cs ds. graph p dst = Some (cs, ds) \<and> map_of cs slot = None))
         \<and> (\<forall>k. r = Throws k \<longrightarrow> graph p' = graph p)
         \<and> r \<noteq> Undefined"
proof (cases "get_node p src")
  case None
  then show ?thesis using assms by (auto simp: connect_def)
next
  case (Some sn)
  note sn = this
  show ?thesis
  proof (cases "get_node p dst")
    case None
    then show ?thesis using assms sn by (auto simp: connect_def)
  next
    case (Some dn)
    note dn = this
    have gs: "graph p src = Some (connections sn, dependencies sn)"
      and gd: "graph p dst = Some (connections dn, dependencies dn)"
      using sn dn by (simp_all add: graph_def)
    show ?thesis
    proof (cases "node_connect V (impl dn) (Some src) slot")
      case (Pair e obj)
      show ?thesis
      proof (cases e)
        case (Some k)
        have "graph (put_node dst (dn\<lparr>impl := obj\<rparr>) p) = graph p"
          using gd by (auto simp: graph_put_node fun_eq_iff)
        then show ?thesis
          using assms sn dn Pair Some
          by (auto simp: connect_def split: if_splits)
      next
        case None
        define p1 where "p1 = put_node dst
              (dn\<lparr>impl := obj, connections := umap_emplace slot src (connections dn)\<rparr>) p"
        have live: "get_node p1 src \<noteq> None"
          using sn dn by (auto simp: p1_def get_node_put_node)
        then obtain s1 where s1: "get_node p1 src = Some s1" by auto
        have g1: "graph p1 n = (if n = dst then Some (umap_emplace slot src (connections dn), dependencies dn)
                      else graph p n)" for n
          using gd by (auto simp: p1_def graph_put_node)
        have gs1: "graph p1 src = Some (connections s1, dependencies s1)"
          using s1 by (simp add: graph_def)
        show ?thesis
        proof (cases "map_of (connections dn) slot = None
                 \<and> \<not> (slot < 0 \<or> length (get_input_types V (impl dn)) \<le> nat slot)
                 \<and> get_input_types V (impl dn) ! nat slot = get_output_type V (impl sn)")
          case False
          then show ?thesis
            using assms sn dn by (auto simp: connect_def split: if_splits)
        next
          case True
          then have res: "r = Returns ()"
            "p' = put_node src (s1\<lparr>dependencies := dependencies s1 @ [(dst, slot)]\<rparr>) p1"
            using assms sn dn Pair None s1
            by (auto simp: connect_def p1_def Let_def split: if_splits)
          have ue: "umap_emplace slot src (connections dn) = (slot, src) # connections dn"
            using True by (simp add: umap_emplace_def)
          have "graph p' n = g_connect (graph p) src dst slot n" for n
            using gs1 gs gd g1 [of n] g1 [of src] ue
            by (cases "graph p n") (auto simp: res graph_put_node g_connect_def)
          then have "graph p' = g_connect (graph p) src dst slot" by (simp add: fun_eq_iff)
          then show ?thesis using res gs gd True by auto
        qed
      qed
    qed
  qed
qed

lemma mirror_g_connect:
  assumes m: "mirror_g G" and s: "G src \<noteq> None" and d: "G dst = Some (dcs, dds)"
    and free: "map_of dcs slot = None"
  shows "mirror_g (g_connect G src dst slot)"
  unfolding mirror_g_def
proof (intro allI impI)
  fix n cs' ds'
  assume n': "g_connect G src dst slot n = Some (cs', ds')"
  then obtain cs ds where n: "G n = Some (cs, ds)"
    and cs': "cs' = (if n = dst then [(slot, src)] else []) @ cs"
    and ds': "ds' = ds @ (if n = src then [(dst, slot)] else [])"
    by (auto simp: g_connect_def)
  from m n have dist: "distinct (map fst cs)"
    and up: "\<And>s u. (s, u) \<in> set cs \<Longrightarrow> \<exists>ucs uds. G u = Some (ucs, uds) \<and> count_list uds (n, s) = 1"
    and down: "\<And>d s. (d, s) \<in> set ds \<Longrightarrow> \<exists>xcs xds. G d = Some (xcs, xds) \<and> map_of xcs s = Some n"
    unfolding mirror_g_def by blast+
  have nokey: "slot \<notin> fst ` set dcs"
    using free by (simp add: map_of_eq_None_iff)
  have c1: "distinct (map fst cs')"
    using dist nokey d n by (auto simp: cs')
  have c2: "\<exists>ucs uds. g_connect G src dst slot u = Some (ucs, uds) \<and> count_list uds (n, s) = 1"
    if mem: "(s, u) \<in> set cs'" for s u
  proof (cases "(s, u) \<in> set cs")
    case True
    from up [OF True] obtain ucs uds where u: "G u = Some (ucs, uds)" "count_list uds (n, s) = 1"
      by blast
    have "(n, s) \<noteq> (dst, slot)"
      using True nokey d n by force
    then show ?thesis using u by (auto simp: g_connect_def)
  next
    case False
    with mem have new: "n = dst" "s = slot" "u = src"
      by (auto simp: cs' split: if_splits)
    from s obtain ucs uds where u: "G src = Some (ucs, uds)" by auto
    have "(dst, slot) \<notin> set uds"
    proof
      assume "(dst, slot) \<in> set uds"
      with m u obtain xcs xds where "G dst = Some (xcs, xds)" "map_of xcs slot = Some src"
        unfolding mirror_g_def by blast
      with d free show False by simp
    qed
    then have "count_list uds (dst, slot) = 0" by (simp add: count_list_0_iff)
    then show ?thesis using u new by (auto simp: g_connect_def)
  qed
  have c3: "\<exists>xcs xds. g_connect G src dst slot x = Some (xcs, xds) \<and> map_of xcs s = Some n"
    if mem: "(x, s) \<in> set ds'" for x s
  proof (cases "(x, s) \<in> set ds")
    case True
    from down [OF True] obtain xcs xds where x: "G x = Some (xcs, xds)" "map_of xcs s = Some n"
      by blast
    have "\<not> (x = dst \<and> s = slot)" using x d free by auto
    then show ?thesis using x by (auto simp: g_connect_def)
  next
    case False
    with mem have new: "n = src" "x = dst" "s = slot"
      by (auto simp: ds' split: if_splits)
    then show ?thesis using d by (auto simp: g_connect_def)
  qed
  show "distinct (map fst cs')
        \<and> (\<forall>slota up. (slota, up) \<in> set cs' \<longrightarrow>
              (\<exists>ucs uds. g_connect G src dst slot up = Some (ucs, uds) \<and> count_list uds (n, slota) = 1))
        \<and> (\<forall>d slota. (d, slota) \<in> set ds' \<longrightarrow>
              (\<exists>dcs dds. g_connect G src dst slot d = Some (dcs, dds) \<and> map_of dcs slota = Some n))"
    using c1 c2 c3 by blast
qed

lemma disconnect_graph:
  assumes "disconnect V p src dst = (r, p')"
  shows "(r = Returns () \<longrightarrow> graph p' = g_disconnect (graph p) src dst)
         \<and> (\<forall>k. r = Throws k \<longrightarrow> graph p' = graph p)
         \<and> r \<noteq> Undefined"
proof (cases "get_node p src")
  case None
  then show ?thesis using assms by (auto simp: disconnect_def)
next
  case (Some sn)
  note sn = this
  show ?thesis
  proof (cases "get_node p dst")
    case None
    then show ?thesis using assms sn by (auto simp: disconnect_def)
  next
    case (Some dn)
    note dn = this
    have gs: "graph p src = Some (connections sn, dependencies sn)"
      and gd: "graph p dst = Some (connections dn, dependencies dn)"
      using sn dn by (simp_all add: graph_def)
    show ?thesis
    proof (cases "disconnect_slots V src (connections dn) (impl dn)")
      case (Pair e obj)
      show ?thesis
      proof (cases e)
        case (Some k)
        have "graph (put_node dst (dn\<lparr>impl := obj\<rparr>) p) = graph p"
          using gd by (auto simp: graph_put_node fun_eq_iff)
        then show ?thesis
          using assms sn dn Pair Some by (auto simp: disconnect_def)
      next
        case None
        define p1 where "p1 = put_node dst
              (dn\<lparr>impl := obj,
                 connections := filter (\<lambda>item. snd item \<noteq> src) (connections dn)\<rparr>) p"
        have live: "get_node p1 src \<noteq> None"
          using sn dn by (auto simp: p1_def get_node_put_node)
        then obtain s1 where s1: "get_node p1 src = Some s1" by auto
        have g1: "graph p1 n = (if n = dst
                      then Some (filter (\<lambda>item. snd item \<noteq> src) (connections dn), dependencies dn)
                      else graph p n)" for n
          using gd by (auto simp: p1_def graph_put_node)
        have gs1: "graph p1 src = Some (connections s1, dependencies s1)"
          using s1 by (simp add: graph_def)
        have res: "r = Returns ()"
          "p' = put_node src
                  (s1\<lparr>dependencies := filter (\<lambda>item. fst item \<noteq> dst) (dependencies s1)\<rparr>) p1"
          using assms sn dn Pair None s1
          by (auto simp: disconnect_def p1_def Let_def)
        have "graph p' n = g_disconnect (graph p) src dst n" for n
          using gs1 gs gd g1 [of n] g1 [of src]
          by (cases "graph p n") (auto simp: res graph_put_node g_disconnect_def)
        then have "graph p' = g_disconnect (graph p) src dst" by (simp add: fun_eq_iff)
        then show ?thesis using res by auto
      qed
    qed
  qed
qed

lemma count_list_filter:
  "count_list (filter P xs) x = (if P x then count_list xs x else 0)"
  by (induction xs) auto

lemma map_of_filter_Some:
  "map_of xs k = Some v \<Longrightarrow> P (k, v) \<Longrightarrow> map_of (filter P xs) k = Some v"
  by (induction xs) (auto split: if_splits)

lemma mirror_g_disconnect:
  assumes m: "mirror_g G"
  shows "mirror_g (g_disconnect G src dst)"
  unfolding mirror_g_def
proof (intro allI impI)
  fix n cs' ds'
  assume n': "g_disconnect G src dst n = Some (cs', ds')"
  then obtain cs ds where n: "G n = Some (cs, ds)"
    and cs': "cs' = (if n = dst then filter (\<lambda>item. snd item \<noteq> src) cs else cs)"
    and ds': "ds' = (if n = src then filter (\<lambda>item. fst item \<noteq> dst) ds else ds)"
    by (auto simp: g_disconnect_def)
  from m n have dist: "distinct (map fst cs)"
    and up: "\<And>s u. (s, u) \<in> set cs \<Longrightarrow> \<exists>ucs uds. G u = Some (ucs, uds) \<and> count_list uds (n, s) = 1"
    and down: "\<And>d s. (d, s) \<in> set ds \<Longrightarrow> \<exists>xcs xds. G d = Some (xcs, xds) \<and> map_of xcs s = Some n"
    unfolding mirror_g_def by blast+
  have c1: "distinct (map fst cs')"
    using dist by (auto simp: cs' distinct_map_filter)
  have c2: "\<exists>ucs uds. g_disconnect G src dst u = Some (ucs, uds) \<and> count_list uds (n, s) = 1"
    if mem: "(s, u) \<in> set cs'" for s u
  proof -
    from mem have old: "(s, u) \<in> set cs" and keep: "\<not> (n = dst \<and> u = src)"
      by (auto simp: cs' split: if_splits)
    from up [OF old] obtain ucs uds where u: "G u = Some (ucs, uds)" "count_list uds (n, s) = 1"
      by blast
    then show ?thesis using keep by (auto simp: g_disconnect_def count_list_filter)
  qed
  have c3: "\<exists>xcs xds. g_disconnect G src dst x = Some (xcs, xds) \<and> map_of xcs s = Some n"
    if mem: "(x, s) \<in> set ds'" for x s
  proof -
    from mem have old: "(x, s) \<in> set ds" and keep: "\<not> (n = src \<and> x = dst)"
      by (auto simp: ds' split: if_splits)
    from down [OF old] obtain xcs xds where x: "G x = Some (xcs, xds)" "map_of xcs s = Some n"
      by blast
    then show ?thesis using keep by (auto simp: g_disconnect_def map_of_filter_Some)
  qed
  show "distinct (map fst cs')
        \<and> (\<forall>slota up. (slota, up) \<in> set cs' \<longrightarrow>
              (\<exists>ucs uds. g_disconnect G src dst up = Some (ucs, uds) \<and> count_list uds (n, slota) = 1))
        \<and> (\<forall>d slota. (d, slota) \<in> set ds' \<longrightarrow>
              (\<exists>dcs dds. g_disconnect G src dst d = Some (dcs, dds) \<and> map_of dcs slota = Some n))"
    using c1 c2 c3 by blast
qed

lemma erase_from_sources_get:
  "erase_from_sources n_id cs p = Some p1 \<Longrightarrow>
   get_node p1 j =
     map_option (\<lambda>n. if j \<in> snd ` set cs
          then n\<lparr>dependencies := filter (\<lambda>item. fst item \<noteq> n_id) (dependencies n)\<rparr> else n)
       (get_node p j)"
proof (induction cs arbitrary: p)
  case Nil
  then show ?case by (cases "get_node p j") auto
next
  case (Cons c cs)
  obtain slot src where c: "c = (slot, src)" by (cases c)
  from Cons.prems c obtain s where s: "get_node p src = Some s"
    and rest: "erase_from_sources n_id cs
        (put_node src (s\<lparr>dependencies := filter (\<lambda>item. fst item \<noteq> n_id) (dependencies s)\<rparr>) p)
       = Some p1"
    by (auto split: option.splits)
  show ?case
    using Cons.IH [OF rest] s c
    by (cases "get_node p j") (auto simp: get_node_put_node)
qed

lemma erase_from_sources_Some:
  "(\<And>slot src. (slot, src) \<in> set cs \<Longrightarrow> get_node p src \<noteq> None)
   \<Longrightarrow> \<exists>p1. erase_from_sources n_id cs p = Some p1"
proof (induction cs arbitrary: p)
  case Nil
  then show ?case by simp
next
  case (Cons c cs)
  obtain slot src where c: "c = (slot, src)" by (cases c)
  from Cons.prems [of slot src] c obtain s where s: "get_node p src = Some s" by auto
  have "\<exists>p1. erase_from_sources n_id cs
        (put_node src (s\<lparr>dependencies := filter (\<lambda>item. fst item \<noteq> n_id) (dependencies s)\<rparr>) p)
       = Some p1"
    by (rule Cons.IH) (use Cons.prems in \<open>auto simp: get_node_put_node\<close>)
  then show ?case using s c by simp
qed

lemma erase_from_dests_get:
  "erase_from_dests ds p = Some p2 \<Longrightarrow>
   get_node p2 j =
     map_option (\<lambda>n. n\<lparr>connections := filter (\<lambda>item. (j, fst item) \<notin> set ds) (connections n)\<rparr>)
       (get_node p j)"
proof (induction ds arbitrary: p)
  case Nil
  then show ?case by (cases "get_node p j") auto
next
  case (Cons c ds)
  obtain dst slot where c: "c = (dst, slot)" by (cases c)
  from Cons.prems c obtain d where d: "get_node p dst = Some d"
    and rest: "erase_from_dests ds
        (put_node dst (d\<lparr>connections := filter (\<lambda>item. fst item \<noteq> slot) (connections d)\<rparr>) p)
       = Some p2"
    by (auto split: option.splits)
  have flt: "filter (\<lambda>item. (dst, fst item) \<notin> set ds) (filter (\<lambda>item. fst item \<noteq> slot) xs)
       = filter (\<lambda>item. (dst, fst item) \<notin> set ((dst, slot) # ds)) xs" for xs :: "(int \<times> node_id) list"
    by (induction xs) auto
  show ?case
    using Cons.IH [OF rest] d c flt
    by (cases "get_node p j") (auto simp: get_node_put_node)
qed

lemma erase_from_dests_Some:
  "(\<And>dst slot. (dst, slot) \<in> set ds \<Longrightarrow> get_node p dst \<noteq> None)
   \<Longrightarrow> \<exists>p2. erase_from_dests ds p = Some p2"
proof (induction ds arbitrary: p)
  case Nil
  then show ?case by simp
next
  case (Cons c ds)
  obtain dst slot where c: "c = (dst, slot)" by (cases c)
  from Cons.prems [of dst slot] c obtain d where d: "get_node p dst = Some d" by auto
  have "\<exists>p2. erase_from_dests ds
        (put_node dst (d\<lparr>connections := filter (\<lambda>item. fst item \<noteq> slot) (connections d)\<rparr>) p)
       = Some p2"
    by (rule Cons.IH) (use Cons.prems in \<open>auto simp: get_node_put_node\<close>)
  then show ?case using d c by simp
qed

lemma map_of_filter_key:
  "map_of (filter (\<lambda>item. fst item \<noteq> k) m) j = (if j = k then None else map_of m j)"
  by (induction m) auto

lemma erase_node_get:
  assumes m: "mirror p" and e: "erase_node p n_id = (r, p')"
  shows "(r = Returns () \<longrightarrow> get_node p n_id \<noteq> None
            \<and> (\<forall>j. get_node p' j =
                  (if j = n_id then None else map_option (without n_id) (get_node p j))))
         \<and> (\<forall>k. r = Throws k \<longrightarrow> p' = p)
         \<and> r \<noteq> Undefined"
proof (cases "get_node p n_id")
  case None
  then show ?thesis using e by (auto simp: erase_node_def)
next
  case (Some N)
  note N = this
  from m N have Nup: "\<And>slot up. (slot, up) \<in> set (connections N) \<Longrightarrow>
      \<exists>u. get_node p up = Some u \<and> count_list (dependencies u) (n_id, slot) = 1"
    and Ndown: "\<And>d slot. (d, slot) \<in> set (dependencies N) \<Longrightarrow>
      \<exists>dn. get_node p d = Some dn \<and> map_of (connections dn) slot = Some n_id"
    unfolding mirror_def by blast+
  have "\<exists>p1. erase_from_sources n_id (connections N) p = Some p1"
    by (rule erase_from_sources_Some) (use Nup in fastforce)
  then obtain p1 where p1: "erase_from_sources n_id (connections N) p = Some p1" ..
  note g1 = erase_from_sources_get [OF p1]
  define N1 where "N1 = (if n_id \<in> snd ` set (connections N)
      then N\<lparr>dependencies := filter (\<lambda>item. fst item \<noteq> n_id) (dependencies N)\<rparr> else N)"
  have N1: "get_node p1 n_id = Some N1"
    using g1 [of n_id] N by (simp add: N1_def)
  have sub: "set (dependencies N1) \<subseteq> set (dependencies N)"
    by (auto simp: N1_def)
  have "\<exists>p2. erase_from_dests (dependencies N1) p1 = Some p2"
  proof (rule erase_from_dests_Some)
    fix dst slot assume "(dst, slot) \<in> set (dependencies N1)"
    with sub Ndown obtain dn where "get_node p dst = Some dn" by blast
    then show "get_node p1 dst \<noteq> None" using g1 [of dst] by simp
  qed
  then obtain p2 where p2: "erase_from_dests (dependencies N1) p1 = Some p2" ..
  note g2 = erase_from_dests_get [OF p2]
  have res: "r = Returns ()" "p' = p2\<lparr>nodes := filter (\<lambda>item. fst item \<noteq> n_id) (nodes p2)\<rparr>"
    using e N p1 N1 p2 by (auto simp: erase_node_def)
  have "get_node p' j = (if j = n_id then None else map_option (without n_id) (get_node p j))" for j
  proof (cases "j = n_id")
    case True
    then show ?thesis by (simp add: res get_node_def map_of_filter_key)
  next
    case False
    note ne = this
    show ?thesis
    proof (cases "get_node p j")
      case None
      then show ?thesis using ne g1 [of j] g2 [of j]
        by (simp add: res get_node_def map_of_filter_key)
    next
      case (Some n)
      from m Some have dist: "distinct (map fst (connections n))"
        and nup: "\<And>slot up. (slot, up) \<in> set (connections n) \<Longrightarrow>
          \<exists>u. get_node p up = Some u \<and> count_list (dependencies u) (j, slot) = 1"
        and ndown: "\<And>d slot. (d, slot) \<in> set (dependencies n) \<Longrightarrow>
          \<exists>dn. get_node p d = Some dn \<and> map_of (connections dn) slot = Some j"
        unfolding mirror_def by blast+
      have deps: "(if j \<in> snd ` set (connections N)
            then filter (\<lambda>item. fst item \<noteq> n_id) (dependencies n) else dependencies n)
          = filter (\<lambda>item. fst item \<noteq> n_id) (dependencies n)"
      proof (cases "j \<in> snd ` set (connections N)")
        case True
        then show ?thesis by simp
      next
        case False
        have "fst item \<noteq> n_id" if "item \<in> set (dependencies n)" for item
        proof
          assume "fst item = n_id"
          then have "(n_id, snd item) \<in> set (dependencies n)" using that by (cases item) auto
          from ndown [OF this] N have "map_of (connections N) (snd item) = Some j" by auto
          then have "(snd item, j) \<in> set (connections N)" by (rule map_of_SomeD)
          then show False using False by force
        qed
        then show ?thesis using False by simp
      qed
      have conns: "filter (\<lambda>item. (j, fst item) \<notin> set (dependencies N1)) (connections n)
          = filter (\<lambda>item. snd item \<noteq> n_id) (connections n)"
      proof (rule filter_cong [OF refl])
        fix item assume mem: "item \<in> set (connections n)"
        obtain s u where item: "item = (s, u)" by (cases item)
        have "(j, s) \<in> set (dependencies N1) \<longleftrightarrow> (j, s) \<in> set (dependencies N)"
          using ne by (auto simp: N1_def)
        moreover have "(j, s) \<in> set (dependencies N) \<longleftrightarrow> u = n_id"
        proof
          assume "(j, s) \<in> set (dependencies N)"
          from Ndown [OF this] Some have "map_of (connections n) s = Some n_id" by auto
          moreover have "map_of (connections n) s = Some u"
            using dist mem item by simp
          ultimately show "u = n_id" by simp
        next
          assume "u = n_id"
          with mem item have "(s, n_id) \<in> set (connections n)" by simp
          from nup [OF this] N have "count_list (dependencies N) (j, s) = 1" by auto
          then show "(j, s) \<in> set (dependencies N)"
            by (metis count_list_0_iff zero_neq_one)
        qed
        ultimately show "((j, fst item) \<notin> set (dependencies N1)) = (snd item \<noteq> n_id)"
          using item by simp
      qed
      have "get_node p2 j = Some (without n_id n)"
        using g2 [of j] g1 [of j] Some deps conns
        by (auto simp: without_def)
      then show ?thesis using ne Some by (simp add: res get_node_def map_of_filter_key)
    qed
  qed
  then show ?thesis using res N by simp
qed

lemma mirror_g_erase:
  assumes m: "mirror_g G"
  shows "mirror_g (g_erase G n_id)"
  unfolding mirror_g_def
proof (intro allI impI)
  fix n cs' ds'
  assume n': "g_erase G n_id n = Some (cs', ds')"
  then obtain cs ds where n: "G n = Some (cs, ds)" and ne: "n \<noteq> n_id"
    and cs': "cs' = filter (\<lambda>item. snd item \<noteq> n_id) cs"
    and ds': "ds' = filter (\<lambda>item. fst item \<noteq> n_id) ds"
    by (auto simp: g_erase_def split: if_splits)
  from m n have dist: "distinct (map fst cs)"
    and up: "\<And>s u. (s, u) \<in> set cs \<Longrightarrow> \<exists>ucs uds. G u = Some (ucs, uds) \<and> count_list uds (n, s) = 1"
    and down: "\<And>d s. (d, s) \<in> set ds \<Longrightarrow> \<exists>xcs xds. G d = Some (xcs, xds) \<and> map_of xcs s = Some n"
    unfolding mirror_g_def by blast+
  have c1: "distinct (map fst cs')"
    using dist by (auto simp: cs' distinct_map_filter)
  have c2: "\<exists>ucs uds. g_erase G n_id u = Some (ucs, uds) \<and> count_list uds (n, s) = 1"
    if mem: "(s, u) \<in> set cs'" for s u
  proof -
    from mem have old: "(s, u) \<in> set cs" and keep: "u \<noteq> n_id"
      by (auto simp: cs')
    from up [OF old] obtain ucs uds where u: "G u = Some (ucs, uds)" "count_list uds (n, s) = 1"
      by blast
    then show ?thesis using keep ne by (auto simp: g_erase_def count_list_filter)
  qed
  have c3: "\<exists>xcs xds. g_erase G n_id x = Some (xcs, xds) \<and> map_of xcs s = Some n"
    if mem: "(x, s) \<in> set ds'" for x s
  proof -
    from mem have old: "(x, s) \<in> set ds" and keep: "x \<noteq> n_id"
      by (auto simp: ds')
    from down [OF old] obtain xcs xds where x: "G x = Some (xcs, xds)" "map_of xcs s = Some n"
      by blast
    then show ?thesis using keep ne by (auto simp: g_erase_def map_of_filter_Some)
  qed
  show "distinct (map fst cs')
        \<and> (\<forall>slota up. (slota, up) \<in> set cs' \<longrightarrow>
              (\<exists>ucs uds. g_erase G n_id up = Some (ucs, uds) \<and> count_list uds (n, slota) = 1))
        \<and> (\<forall>d slota. (d, slota) \<in> set ds' \<longrightarrow>
              (\<exists>dcs dds. g_erase G n_id d = Some (dcs, dds) \<and> map_of dcs slota = Some n))"
    using c1 c2 c3 by blast
qed

lemma erase_node_graph:
  assumes m: "mirror p" and e: "erase_node p n_id = (Returns (), p')"
  shows "graph p' = g_erase (graph p) n_id"
proof
  fix j
  from erase_node_get [OF m e]
  have "get_node p' j = (if j = n_id then None else map_option (without n_id) (get_node p j))"
    by simp
  then show "graph p' j = g_erase (graph p) n_id j"
    by (cases "get_node p j") (auto simp: graph_def g_erase_def without_def)
qed

lemma polling_graph:
  "polling fuel V src t = Some (res, t') \<Longrightarrow> graph (pl t') = graph (pl t)"
  "polling_loop fuel V cs t = Some (r, t') \<Longrightarrow> graph (pl t') = graph (pl t)"
proof (induction fuel V src t and fuel V cs t arbitrary: res t' and r t'
    rule: polling_polling_loop.induct)
  case (1 V src t)
  then show ?case by simp
next
  case (2 fuel V src t)
  show ?case
  proof (cases "visited t src")
    case (Some a)
    then show ?thesis using "2.prems" by simp
  next
    case None
    note vis = this
    from "2.prems" vis obtain node where node: "get_node (pl t) src = Some node"
      by (auto split: option.splits)
    from "2.prems" vis node obtain lr t1 where
      loop: "polling_loop fuel V (connections node) t = Some (lr, t1)"
      by (auto split: option.splits)
    have g1: "graph (pl t1) = graph (pl t)"
      by (rule "2.IH" [OF vis node loop])
    show ?thesis
    proof (cases lr)
      case (Some a)
      then show ?thesis using "2.prems" vis node loop g1 by auto
    next
      case None
      from "2.prems" vis node loop None obtain node1 res1 obj where
        "get_node (pl t1) src = Some node1"
        "t' = t1\<lparr>visited := (visited t1)(src \<mapsto> res1),
                 pl := put_node src (node1\<lparr>impl := obj\<rparr>) (pl t1),
                 polled := polled t1 @ [src]\<rparr>"
        by (auto split: option.splits)
      then have "graph (pl t') = graph (pl t1)"
        by (auto simp: graph_def get_node_put_node fun_eq_iff)
      then show ?thesis using g1 by simp
    qed
  qed
next
  case (3 fuel V t)
  then show ?case by simp
next
  case (4 fuel V slot next_src cs t)
  from "4.prems" obtain res1 t1 where
    p: "polling fuel V next_src t = Some (res1, t1)"
    by (auto split: option.splits)
  have g1: "graph (pl t1) = graph (pl t)" by (rule "4.IH"(1) [OF p])
  show ?case
  proof (cases "res1 = empty \<or> res1 = closed")
    case True
    then show ?thesis using "4.prems" p g1 by (auto split: if_splits)
  next
    case False
    then have "polling_loop fuel V cs t1 = Some (r, t')"
      using "4.prems" p by simp
    from "4.IH"(2) [OF p _ _ _ this] False g1 show ?thesis by simp
  qed
qed

lemma step_loop_graph:
  "step_loop fuel V ns b t = Some (b', t') \<Longrightarrow> graph (pl t') = graph (pl t)"
proof (induction ns arbitrary: b t)
  case Nil
  then show ?case by simp
next
  case (Cons n ns)
  then show ?case
    by (auto split: option.splits if_splits dest!: polling_graph(1))
qed

lemma step_graph: "step fuel V p = Some (b, p') \<Longrightarrow> graph p' = graph p"
  by (auto simp: step_def step_tick_def dest!: step_loop_graph)

lemma mirror_g_empty: "mirror_g (\<lambda>n. None)"
  by (simp add: mirror_g_def)

lemma reachable_mirror: "reachable V p \<Longrightarrow> mirror p"
proof (induction rule: reachable.induct)
  case r_init
  show ?case by (simp add: mirror_def pipeline_init_def get_node_def)
next
  case (r_create p obj)
  show ?case
  proof (cases "graph p (current_id p)")
    case None
    have "graph (snd (create_node p obj)) = (graph p)(current_id p \<mapsto> ([], []))"
      using None by (auto simp: graph_create_node fun_eq_iff)
    then show ?thesis
      using mirror_g_create [of "graph p" "current_id p"] r_create.IH None
      by (simp add: mirror_graph)
  next
    case (Some a)
    then have "graph (snd (create_node p obj)) = graph p"
      by (auto simp: graph_create_node fun_eq_iff)
    then show ?thesis using r_create.IH by (simp add: mirror_graph)
  qed
next
  case (r_connect p src dst slot)
  obtain r p' where c: "connect V p src dst slot = (r, p')" by (cases "connect V p src dst slot")
  note g = connect_graph [OF c]
  show ?case
  proof (cases r)
    case (Returns u)
    with g obtain cs ds where "graph p' = g_connect (graph p) src dst slot" "graph p src \<noteq> None"
      "graph p dst = Some (cs, ds)" "map_of cs slot = None" by auto
    then show ?thesis
      using mirror_g_connect [of "graph p" src dst cs ds slot] r_connect.IH c
      by (simp add: mirror_graph)
  next
    case (Throws k)
    with g have "graph p' = graph p" by simp
    then show ?thesis using r_connect.IH c by (simp add: mirror_graph)
  next
    case Undefined
    with g show ?thesis by simp
  qed
next
  case (r_disconnect p src dst)
  obtain r p' where c: "disconnect V p src dst = (r, p')" by (cases "disconnect V p src dst")
  note g = disconnect_graph [OF c]
  show ?case
  proof (cases r)
    case (Returns u)
    with g have "graph p' = g_disconnect (graph p) src dst" by auto
    then show ?thesis
      using mirror_g_disconnect [of "graph p" src dst] r_disconnect.IH c
      by (simp add: mirror_graph)
  next
    case (Throws k)
    with g have "graph p' = graph p" by simp
    then show ?thesis using r_disconnect.IH c by (simp add: mirror_graph)
  next
    case Undefined
    with g show ?thesis by simp
  qed
next
  case (r_erase p n_id)
  obtain r p' where c: "erase_node p n_id = (r, p')" by (cases "erase_node p n_id")
  note g = erase_node_get [OF r_erase.IH c]
  show ?case
  proof (cases r)
    case (Returns u)
    then have "graph p' = g_erase (graph p) n_id"
      using erase_node_graph [OF r_erase.IH] c by simp
    then show ?thesis
      using mirror_g_erase [of "graph p" n_id] r_erase.IH c
      by (simp add: mirror_graph)
  next
    case (Throws k)
    with g have "p' = p" by simp
    then show ?thesis using r_erase.IH c by simp
  next
    case Undefined
    with g show ?thesis by simp
  qed
next
  case (r_step p fuel b p')
  then show ?case using step_graph [of fuel V p b p'] by (simp add: mirror_graph)
next
  case (r_move_to p cid)
  have "graph \<lparr>nodes = nodes p, current_id = cid\<rparr> = graph p"
    by (simp add: graph_def get_node_def fun_eq_iff)
  then show ?case using r_move_to.IH by (simp add: mirror_graph)
next
  case (r_move_from p)
  show ?case by (simp add: mirror_def get_node_def)
qed

section \<open>The mirror invariant\<close>

text \<open>
  C6. In every state that the operations of a pipeline can reach, in particular after
  every successful \<open>create_node\<close>, \<open>connect\<close>, \<open>disconnect\<close> and \<open>erase_node\<close>: for every
  live node \<open>n\<close> and every entry \<open>slot \<rightarrow> up\<close> of its connections, \<open>up\<close> is live and its
  dependencies hold \<open>(n, slot)\<close> exactly once; and every entry \<open>(d, slot)\<close> of the
  dependencies of a live node \<open>u\<close> is the entry \<open>slot \<rightarrow> u\<close>, the only one for \<open>slot\<close>, of
  the connections of the live node \<open>d\<close>.
\<close>

theorem mirror_invariant: "reachable V p \<Longrightarrow> mirror p"
  by (rule reachable_mirror)

theorem mirror_invariant_witness:
  "reachable test_vtable s1 \<and> mirror s1
   \<and> connections (the (get_node s1 3)) = [(1, 2), (0, 1)]
   \<and> dependencies (the (get_node s1 2)) = [(3, 1), (5, 0)]"
proof -
  have r: "reachable test_vtable s1"
    unfolding s1_def by (rule reachable_build)
  have e: "connections (the (get_node s1 3)) = [(1, 2), (0, 1)]"
    "dependencies (the (get_node s1 2)) = [(3, 1), (5, 0)]"
    by (simp_all add: s1_eval get_node_def)
  show ?thesis using r mirror_invariant [OF r] e by simp
qed

section \<open>What erase_node leaves in the downstream nodes\<close>

lemma disconnect_slots_None:
  "disconnect_slots V src cs obj = (None, obj') \<Longrightarrow>
   obj' = foldl (\<lambda>obj s. snd (node_connect V obj None s)) obj
            (map fst (filter (\<lambda>item. snd item = src) cs))"
proof (induction cs arbitrary: obj)
  case Nil
  then show ?case by simp
next
  case (Cons c cs)
  obtain slot connected_by where c: "c = (slot, connected_by)" by (cases c)
  show ?case
  proof (cases "src = connected_by")
    case True
    obtain e o1 where nc: "node_connect V obj None slot = (e, o1)"
      by (cases "node_connect V obj None slot")
    with Cons.prems c True have e: "e = None" and rest: "disconnect_slots V src cs o1 = (None, obj')"
      by (auto split: option.splits)
    show ?thesis using Cons.IH [OF rest] c True nc by simp
  next
    case False
    with Cons.prems c have "disconnect_slots V src cs obj = (None, obj')" by simp
    from Cons.IH [OF this] show ?thesis using c False by simp
  qed
qed

lemma map_of_filter_None:
  "distinct (map fst cs) \<Longrightarrow> (k, v) \<in> set cs \<Longrightarrow> \<not> P (k, v) \<Longrightarrow> map_of (filter P cs) k = None"
  by (induction cs) (auto simp: map_of_eq_None_iff image_iff)

text \<open>
  C10. When \<open>erase_node n_id\<close> succeeds and a surviving node \<open>d\<close> had a slot fed by
  \<open>n_id\<close>, the entry of that slot is gone from the connections of \<open>d\<close>, and the user's
  part of \<open>d\<close> is what it was: the \<open>connect\<close> callback of \<open>d\<close> was not called, so the
  pointer \<open>d\<close> stored for the slot still names the erased node. A successful
  \<open>disconnect src dst\<close> removes the entries too, and the user's part of \<open>dst\<close> is then the
  result of its \<open>connect\<close> callback, called with the null pointer for each slot that \<open>src\<close>
  fed, in the order of the container.
\<close>

theorem erase_node_keeps_binding:
  assumes r: "reachable V p"
  shows "(erase_node p n_id = (Returns (), p') \<and> d \<noteq> n_id \<and> get_node p d = Some dn
            \<and> (slot, n_id) \<in> set (connections dn)
          \<longrightarrow> (\<exists>dn'. get_node p' d = Some dn' \<and> map_of (connections dn') slot = None
                  \<and> impl dn' = impl dn))
       \<and> (disconnect V p src dst = (Returns (), p') \<and> get_node p dst = Some dn
          \<longrightarrow> (\<exists>dn'. get_node p' dst = Some dn'
                  \<and> connections dn' = filter (\<lambda>item. snd item \<noteq> src) (connections dn)
                  \<and> impl dn' = foldl (\<lambda>obj s. snd (node_connect V obj None s)) (impl dn)
                       (map fst (filter (\<lambda>item. snd item = src) (connections dn)))))"
proof (intro conjI impI)
  assume a: "erase_node p n_id = (Returns (), p') \<and> d \<noteq> n_id \<and> get_node p d = Some dn
            \<and> (slot, n_id) \<in> set (connections dn)"
  have m: "mirror p" using r by (rule reachable_mirror)
  from a erase_node_get [OF m, of n_id "Returns ()" p']
  have g: "get_node p' d = Some (without n_id dn)" by simp
  from m a have dist: "distinct (map fst (connections dn))" unfolding mirror_def by blast
  from a have mem: "(slot, n_id) \<in> set (connections dn)" by simp
  have "map_of (filter (\<lambda>item. snd item \<noteq> n_id) (connections dn)) slot = None"
    by (rule map_of_filter_None [OF dist mem]) simp
  then have "map_of (connections (without n_id dn)) slot = None"
    by (simp add: without_def)
  then show "\<exists>dn'. get_node p' d = Some dn' \<and> map_of (connections dn') slot = None
      \<and> impl dn' = impl dn"
    using g by (simp add: without_def)
next
  assume a: "disconnect V p src dst = (Returns (), p') \<and> get_node p dst = Some dn"
  then obtain sn where sn: "get_node p src = Some sn"
    by (auto simp: disconnect_def split: option.splits)
  obtain e obj where ds: "disconnect_slots V src (connections dn) (impl dn) = (e, obj)"
    by (cases "disconnect_slots V src (connections dn) (impl dn)")
  with a sn have e: "e = None" by (auto simp: disconnect_def split: option.splits)
  define dn1 where "dn1 = dn\<lparr>impl := obj,
      connections := filter (\<lambda>item. snd item \<noteq> src) (connections dn)\<rparr>"
  define p1 where "p1 = put_node dst dn1 p"
  have l1: "get_node p1 dst = Some dn1"
    using a by (simp add: p1_def get_node_put_node)
  have "get_node p1 src \<noteq> None" using sn a by (simp add: p1_def get_node_put_node)
  then obtain s1 where s1: "get_node p1 src = Some s1" by auto
  have p': "p' = put_node src
      (s1\<lparr>dependencies := filter (\<lambda>item. fst item \<noteq> dst) (dependencies s1)\<rparr>) p1"
    using a sn ds e s1 by (auto simp: disconnect_def p1_def dn1_def Let_def)
  have "\<exists>dn'. get_node p' dst = Some dn' \<and> connections dn' = connections dn1 \<and> impl dn' = obj"
    using l1 s1 by (auto simp: p' get_node_put_node dn1_def)
  then show "\<exists>dn'. get_node p' dst = Some dn'
      \<and> connections dn' = filter (\<lambda>item. snd item \<noteq> src) (connections dn)
      \<and> impl dn' = foldl (\<lambda>obj s. snd (node_connect V obj None s)) (impl dn)
           (map fst (filter (\<lambda>item. snd item = src) (connections dn)))"
    using disconnect_slots_None [of V src "connections dn" "impl dn" obj] ds e
    by (auto simp: dn1_def)
qed

theorem erase_node_keeps_binding_witness:
  "reachable test_vtable s1
   \<and> impl (the (get_node s1 3)) = test_component (Some 1) (Some 2) 0
   \<and> fst (erase_node s1 1) = Returns ()
   \<and> map_of (connections (the (get_node (snd (erase_node s1 1)) 3))) 0 = None
   \<and> impl (the (get_node (snd (erase_node s1 1)) 3)) = test_component (Some 1) (Some 2) 0
   \<and> fst (disconnect test_vtable s1 1 3) = Returns ()
   \<and> impl (the (get_node (snd (disconnect test_vtable s1 1 3)) 3))
       = test_component None (Some 2) 0"
proof -
  have r: "reachable test_vtable s1"
    unfolding s1_def by (rule reachable_build)
  have e1: "fst (erase_node s1 1) = Returns ()"
    by (simp add: s1_eval erase_node_def get_node_def put_node_def)
  have d1: "fst (disconnect test_vtable s1 1 3) = Returns ()"
    by (simp add: s1_eval disconnect_def get_node_def put_node_def test_vtable_def)
  let ?n3 = "\<lparr>impl = test_component (Some 1) (Some 2) 0,
      connections = [(1, 2), (0, 1)], dependencies = [(4, 0)]\<rparr>"
  have n3: "get_node s1 3 = Some ?n3"
    by (simp add: s1_eval get_node_def)
  have e: "erase_node s1 1 = (Returns (), snd (erase_node s1 1))"
    using e1 by (metis prod.collapse)
  have d: "disconnect test_vtable s1 1 3 = (Returns (), snd (disconnect test_vtable s1 1 3))"
    using d1 by (metis prod.collapse)
  note th = erase_node_keeps_binding [OF r]
  from th [of 1 "snd (erase_node s1 1)" 3 ?n3 0, THEN conjunct1] e n3
  obtain dn' where a: "get_node (snd (erase_node s1 1)) 3 = Some dn'"
    "map_of (connections dn') 0 = None" "impl dn' = test_component (Some 1) (Some 2) 0"
    by auto
  from th [of 1 "snd (disconnect test_vtable s1 1 3)" 3 ?n3 0 1 3, THEN conjunct2] d n3
  obtain dn2 where b: "get_node (snd (disconnect test_vtable s1 1 3)) 3 = Some dn2"
    "impl dn2 = test_component None (Some 2) 0"
    by (auto simp: test_vtable_def)
  show ?thesis using r e1 d1 n3 a b by simp
qed

section \<open>The memo within a tick\<close>

lemma polling_memo_hit: "visited t x = Some r \<Longrightarrow> polling (Suc f) V x t = Some (r, t)"
  by simp

lemma polling_loop_ready_prefix_None:
  "(\<forall>item \<in> set pre. visited t (snd item) = Some ready) \<Longrightarrow> polling f V y t = None
   \<Longrightarrow> polling_loop f V (pre @ (slot, y) # post) t = None"
proof (induction pre)
  case Nil
  then show ?case by simp
next
  case (Cons c pre)
  obtain s v where c: "c = (s, v)" by (cases c)
  from Cons.prems c have v: "visited t v = Some ready" by simp
  show ?case
  proof (cases f)
    case 0
    then show ?thesis using c by simp
  next
    case (Suc g)
    then have "polling f V v t = Some (ready, t)" using v by simp
    then show ?thesis using Cons c by simp
  qed
qed

lemma cycle_never_returns:
  assumes "\<forall>s \<in> S. visited t s = None \<and> (\<exists>s' \<in> S. leads_to (graph (pl t)) (visited t) s s')"
  shows "x \<in> S \<Longrightarrow> polling f V x t = None"
proof (induction f arbitrary: x)
  case 0
  show ?case by simp
next
  case (Suc f)
  from assms Suc.prems obtain y where vis: "visited t x = None" and y: "y \<in> S"
    and l: "leads_to (graph (pl t)) (visited t) x y" by blast
  from l obtain pre slot post ds where g: "graph (pl t) x = Some (pre @ (slot, y) # post, ds)"
    and pre: "\<forall>item \<in> set pre. visited t (snd item) = Some ready"
    unfolding leads_to_def by blast
  from g obtain node where node: "get_node (pl t) x = Some node"
    "connections node = pre @ (slot, y) # post"
    by (auto simp: graph_def)
  have "polling_loop f V (pre @ (slot, y) # post) t = None"
    by (rule polling_loop_ready_prefix_None [OF pre Suc.IH [OF y]])
  then show ?case using vis node by simp
qed

lemma leads_to_mono:
  "leads_to G M x y \<Longrightarrow> memo_le M M' \<Longrightarrow> leads_to G M' x y"
  unfolding leads_to_def memo_le_def by blast

lemma pending_mono:
  assumes "pending G M S x" "memo_le M M'" "\<forall>s \<in> S. M' s = None"
  shows "pending G M' S x"
  unfolding pending_def
proof
  fix s assume s: "s \<in> S"
  with assms(1) have "(\<exists>s' \<in> S. leads_to G M s s') \<or> leads_to G M s x"
    unfolding pending_def by blast
  then have "(\<exists>s' \<in> S. leads_to G M' s s') \<or> leads_to G M' s x"
    using leads_to_mono [of G M _ _ M'] assms(2) by blast
  then show "M' s = None \<and> ((\<exists>s' \<in> S. leads_to G M' s s') \<or> leads_to G M' s x)"
    using assms(3) s by blast
qed

lemma find_first:
  "(\<forall>i \<in> set pre. \<not> P i) \<Longrightarrow> P item \<Longrightarrow> find P (pre @ item # post) = Some item"
  by (induction pre) auto

lemma find_SomeD: "find P cs = Some item \<Longrightarrow> P item"
  by (induction cs) (auto split: if_splits)

lemma find_cong_prefix:
  assumes "find P cs = Some item" "P' item" "\<And>i. \<not> P i \<Longrightarrow> \<not> P' i"
  shows "find P' cs = Some item"
  using assms by (induction cs) (auto split: if_splits)

lemma find_None_cong:
  assumes "find P cs = None" "\<And>i. \<not> P i \<Longrightarrow> \<not> P' i"
  shows "find P' cs = None"
  using assms by (induction cs) (auto split: if_splits)

text \<open>a new memo entry at a key that had none leaves the explained entries explained\<close>

lemma explained_entry_stable:
  assumes old: "case find (\<lambda>item. M (snd item) \<noteq> Some ready) cs of
             None \<Rightarrow> A | Some item \<Rightarrow> M (snd item) = Some r \<and> B"
    and x: "M x = None"
  shows "case find (\<lambda>item. (M(x \<mapsto> v)) (snd item) \<noteq> Some ready) cs of
             None \<Rightarrow> A | Some item \<Rightarrow> (M(x \<mapsto> v)) (snd item) = Some r \<and> B"
proof (cases "find (\<lambda>item. M (snd item) \<noteq> Some ready) cs")
  case None
  have "find (\<lambda>item. (M(x \<mapsto> v)) (snd item) \<noteq> Some ready) cs = None"
    by (rule find_None_cong [OF None]) (use x in auto)
  then show ?thesis using old None by simp
next
  case (Some item)
  with old have it: "M (snd item) = Some r" by simp
  then have ne: "snd item \<noteq> x" using x by auto
  from Some have "M (snd item) \<noteq> Some ready" by (rule find_SomeD)
  then have "find (\<lambda>item. (M(x \<mapsto> v)) (snd item) \<noteq> Some ready) cs = Some item"
    using ne x by (intro find_cong_prefix [OF Some]) auto
  then show ?thesis using old Some ne by simp
qed

lemma find_all_not: "(\<forall>i \<in> set cs. \<not> P i) \<Longrightarrow> find P cs = None"
  by (induction cs) auto

lemma explained_update:
  assumes ex: "explained G M L" and x: "M x = None"
    and own: "\<And>cs ds. G x = Some (cs, ds) \<Longrightarrow>
        (case find (\<lambda>item. (M(x \<mapsto> v)) (snd item) \<noteq> Some ready) cs of
           None \<Rightarrow> x \<in> set L'
         | Some item \<Rightarrow> (M(x \<mapsto> v)) (snd item) = Some v \<and> v \<noteq> ready \<and> x \<notin> set L')"
    and L': "L' = L \<or> L' = L @ [x]"
  shows "explained G (M(x \<mapsto> v)) L'"
proof -
  from ex have d: "distinct L" and sub: "set L \<subseteq> dom M"
    and ent: "\<And>n r cs ds. M n = Some r \<Longrightarrow> G n = Some (cs, ds) \<Longrightarrow>
          (case find (\<lambda>item. M (snd item) \<noteq> Some ready) cs of
             None \<Rightarrow> n \<in> set L
           | Some item \<Rightarrow> M (snd item) = Some r \<and> (r \<noteq> ready \<and> n \<notin> set L))"
    unfolding explained_def by blast+
  have xL: "x \<notin> set L" using sub x by auto
  have c1: "distinct L'" using d xL L' by auto
  have c2: "set L' \<subseteq> dom (M(x \<mapsto> v))" using sub L' by auto
  define P' :: "int \<times> node_id \<Rightarrow> bool"
    where "P' = (\<lambda>item. (M(x \<mapsto> v)) (snd item) \<noteq> Some ready)"
  have c3: "case find P' cs of
             None \<Rightarrow> n \<in> set L'
           | Some item \<Rightarrow> (M(x \<mapsto> v)) (snd item) = Some r \<and> r \<noteq> ready \<and> n \<notin> set L'"
    if n: "(M(x \<mapsto> v)) n = Some r" "G n = Some (cs, ds)" for n r cs ds
  proof (cases "n = x")
    case True
    have rv: "r = v" using n(1) True by simp
    have gx: "G x = Some (cs, ds)" using n(2) True by simp
    show ?thesis unfolding True rv P'_def by (rule own [OF gx])
  next
    case False
    then have "M n = Some r" using n by simp
    from explained_entry_stable [OF ent [OF this n(2)] x, of v]
    have s: "case find P' cs of
             None \<Rightarrow> n \<in> set L
           | Some item \<Rightarrow> (M(x \<mapsto> v)) (snd item) = Some r \<and> (r \<noteq> ready \<and> n \<notin> set L)"
      unfolding P'_def .
    have eq: "n \<in> set L' \<longleftrightarrow> n \<in> set L" using L' False by auto
    show ?thesis
    proof (cases "find P' cs")
      case None
      then show ?thesis using s eq by simp
    next
      case (Some item)
      then show ?thesis using s eq by simp
    qed
  qed
  show ?thesis unfolding explained_def using c1 c2 c3 unfolding P'_def by blast
qed

lemma memo_le_refl: "memo_le M M"
  by (simp add: memo_le_def)

lemma memo_le_trans: "memo_le A B \<Longrightarrow> memo_le B C \<Longrightarrow> memo_le A C"
  by (simp add: memo_le_def)

lemma memo_le_upd: "M x = None \<Longrightarrow> memo_le M (M(x \<mapsto> v))"
  by (auto simp: memo_le_def)

lemma polling_loop_inv:
  assumes IHp: "\<forall>x t res t' S. polling f V x t = Some (res, t') \<longrightarrow> tick_inv G t
       \<longrightarrow> pending G (visited t) S x
       \<longrightarrow> tick_inv G t' \<and> x \<notin> S \<and> (\<forall>s \<in> S. visited t' s = None) \<and> visited t' x = Some res
           \<and> memo_le (visited t) (visited t')"
  shows "polling_loop f V cs t = Some (r, t') \<Longrightarrow> tick_inv G t \<Longrightarrow> G n = Some (done @ cs, ds)
     \<Longrightarrow> (\<forall>item \<in> set done. visited t (snd item) = Some ready) \<Longrightarrow> visited t n = None
     \<Longrightarrow> n \<notin> S \<Longrightarrow> pending G (visited t) S n
     \<Longrightarrow> tick_inv G t' \<and> visited t' n = None \<and> (\<forall>s \<in> S. visited t' s = None)
         \<and> memo_le (visited t) (visited t')
         \<and> (case r of
              None \<Rightarrow> (\<forall>item \<in> set (done @ cs). visited t' (snd item) = Some ready)
            | Some res \<Rightarrow> res \<noteq> ready
                \<and> (\<exists>pre item post. done @ cs = pre @ item # post
                      \<and> (\<forall>i \<in> set pre. visited t' (snd i) = Some ready)
                      \<and> visited t' (snd item) = Some res))"
proof (induction cs arbitrary: t "done")
  case Nil
  then show ?case by (auto simp: memo_le_refl pending_def)
next
  case (Cons c cs)
  obtain slot u where c: "c = (slot, u)" by (cases c)
  from Cons.prems(1) c obtain res1 t1 where p: "polling f V u t = Some (res1, t1)"
    by (auto split: option.splits)
  let ?M = "visited t"
  have pend: "pending G ?M (insert n S) u"
    unfolding pending_def
  proof
    fix s assume s: "s \<in> insert n S"
    show "?M s = None \<and> ((\<exists>s' \<in> insert n S. leads_to G ?M s s') \<or> leads_to G ?M s u)"
    proof (cases "s = n")
      case True
      have "leads_to G ?M n u"
        unfolding leads_to_def using Cons.prems(3,4) c by blast
      then show ?thesis using True Cons.prems(5) by simp
    next
      case False
      with s have sS: "s \<in> S" by simp
      with Cons.prems(7) have "?M s = None"
        and "(\<exists>s' \<in> S. leads_to G ?M s s') \<or> leads_to G ?M s n"
        unfolding pending_def by blast+
      then show ?thesis by blast
    qed
  qed
  from IHp [rule_format, OF p Cons.prems(2) pend]
  have i1: "tick_inv G t1" and u: "u \<notin> insert n S"
    and none1: "\<forall>s \<in> insert n S. visited t1 s = None"
    and vu: "visited t1 u = Some res1" and le1: "memo_le ?M (visited t1)"
    by simp_all
  have done1: "\<forall>item \<in> set done. visited t1 (snd item) = Some ready"
    using Cons.prems(4) le1 unfolding memo_le_def by blast
  show ?case
  proof (cases "res1 = ready")
    case False
    then have r: "r = Some res1" "t' = t1"
      using Cons.prems(1) c p by (cases res1; simp)+
    have "\<exists>pre item post. done @ c # cs = pre @ item # post
            \<and> (\<forall>i \<in> set pre. visited t1 (snd i) = Some ready)
            \<and> visited t1 (snd item) = Some res1"
      using done1 vu c by (intro exI [of _ "done"] exI [of _ c] exI [of _ cs]) simp
    then show ?thesis using r i1 none1 le1 False by simp
  next
    case True
    then have rest: "polling_loop f V cs t1 = Some (r, t')"
      using Cons.prems(1) c p by simp
    have g: "G n = Some ((done @ [c]) @ cs, ds)" using Cons.prems(3) by simp
    have done2: "\<forall>item \<in> set (done @ [c]). visited t1 (snd item) = Some ready"
      using done1 vu True c by simp
    have pend1: "pending G (visited t1) S n"
      by (rule pending_mono [OF Cons.prems(7) le1]) (use none1 in simp)
    from Cons.IH [OF rest i1 g done2 _ Cons.prems(6) pend1] none1
    have a: "tick_inv G t'" "visited t' n = None" "\<forall>s \<in> S. visited t' s = None"
      "memo_le (visited t1) (visited t')"
      and b: "case r of
              None \<Rightarrow> (\<forall>item \<in> set ((done @ [c]) @ cs). visited t' (snd item) = Some ready)
            | Some res \<Rightarrow> res \<noteq> ready
                \<and> (\<exists>pre item post. (done @ [c]) @ cs = pre @ item # post
                      \<and> (\<forall>i \<in> set pre. visited t' (snd i) = Some ready)
                      \<and> visited t' (snd item) = Some res)"
      by simp_all
    have e: "(done @ [c]) @ cs = done @ c # cs" by simp
    show ?thesis using a b memo_le_trans [OF le1 a(4)] unfolding e by simp
  qed
qed

lemma polling_inv:
  "polling f V x t = Some (res, t') \<Longrightarrow> tick_inv G t \<Longrightarrow> pending G (visited t) S x
   \<Longrightarrow> tick_inv G t' \<and> x \<notin> S \<and> (\<forall>s \<in> S. visited t' s = None) \<and> visited t' x = Some res
       \<and> memo_le (visited t) (visited t')"
proof (induction f arbitrary: x t res t' S)
  case 0
  then show ?case by simp
next
  case (Suc f)
  note call = Suc.prems(1) and inv = Suc.prems(2) and pend = Suc.prems(3)
  from inv have gr: "graph (pl t) = G" and ex: "explained G (visited t) (polled t)"
    unfolding tick_inv_def by simp_all
  from pend have Snone: "\<forall>s \<in> S. visited t s = None" unfolding pending_def by blast
  show ?case
  proof (cases "visited t x")
    case (Some r)
    then have "res = r" "t' = t" using call by simp_all
    moreover have "x \<notin> S" using Some Snone by auto
    ultimately show ?thesis using inv Snone Some by (simp add: memo_le_refl)
  next
    case None
    note vis = this
    have xS: "x \<notin> S"
    proof
      assume x: "x \<in> S"
      have "\<forall>s \<in> S. visited t s = None
          \<and> (\<exists>s' \<in> S. leads_to (graph (pl t)) (visited t) s s')"
        using pend x unfolding pending_def gr by blast
      from cycle_never_returns [OF this x] call show False by simp
    qed
    from call vis obtain node where node: "get_node (pl t) x = Some node"
      by (auto split: option.splits)
    from call vis node obtain lr t1 where
      loop: "polling_loop f V (connections node) t = Some (lr, t1)"
      by (auto split: option.splits)
    have gx: "G x = Some ([] @ connections node, dependencies node)"
      using node gr by (auto simp: graph_def)
    have IHp: "\<forall>x t res t' S. polling f V x t = Some (res, t') \<longrightarrow> tick_inv G t
       \<longrightarrow> pending G (visited t) S x
       \<longrightarrow> tick_inv G t' \<and> x \<notin> S \<and> (\<forall>s \<in> S. visited t' s = None) \<and> visited t' x = Some res
           \<and> memo_le (visited t) (visited t')"
      using Suc.IH by blast
    have nil: "\<forall>item \<in> set []. visited t (snd item) = Some ready" by simp
    from polling_loop_inv [OF IHp loop inv gx nil vis xS pend]
    have i1: "tick_inv G t1" and x1: "visited t1 x = None"
      and S1: "\<forall>s \<in> S. visited t1 s = None" and le1: "memo_le (visited t) (visited t1)"
      and shape: "case lr of
              None \<Rightarrow> (\<forall>item \<in> set (connections node). visited t1 (snd item) = Some ready)
            | Some res \<Rightarrow> res \<noteq> ready
                \<and> (\<exists>pre item post. connections node = pre @ item # post
                      \<and> (\<forall>i \<in> set pre. visited t1 (snd i) = Some ready)
                      \<and> visited t1 (snd item) = Some res)"
      unfolding append_Nil by blast+
    from i1 have g1: "graph (pl t1) = G" and ex1: "explained G (visited t1) (polled t1)"
      unfolding tick_inv_def by simp_all
    let ?M1 = "visited t1"
    show ?thesis
    proof (cases lr)
      case (Some r1)
      then have res: "res = r1" and t': "t' = t1\<lparr>visited := ?M1(x \<mapsto> r1)\<rparr>"
        using call vis node loop by auto
      from shape Some obtain pre item post where
        r1: "r1 \<noteq> ready" and cs: "connections node = pre @ item # post"
        and pre: "\<forall>i \<in> set pre. ?M1 (snd i) = Some ready"
        and item: "?M1 (snd item) = Some r1"
        by auto
      have xL: "x \<notin> set (polled t1)"
        using ex1 x1 unfolding explained_def by auto
      have own: "case find (\<lambda>item. (?M1(x \<mapsto> r1)) (snd item) \<noteq> Some ready) cs' of
           None \<Rightarrow> x \<in> set (polled t1)
         | Some item \<Rightarrow> (?M1(x \<mapsto> r1)) (snd item) = Some r1 \<and> r1 \<noteq> ready
              \<and> x \<notin> set (polled t1)"
        if "G x = Some (cs', ds')" for cs' ds'
      proof -
        from that gx have cs': "cs' = pre @ item # post" using cs by simp
        have a: "\<forall>i \<in> set pre. \<not> (?M1(x \<mapsto> r1)) (snd i) \<noteq> Some ready"
          using pre x1 by auto
        have b: "(?M1(x \<mapsto> r1)) (snd item) \<noteq> Some ready"
          using item r1 x1 by auto
        have "find (\<lambda>item. (?M1(x \<mapsto> r1)) (snd item) \<noteq> Some ready) cs' = Some item"
          unfolding cs' by (rule find_first [OF a b])
        moreover have "(?M1(x \<mapsto> r1)) (snd item) = Some r1" using item x1 by auto
        ultimately show ?thesis using r1 xL by simp
      qed
      have "explained G (?M1(x \<mapsto> r1)) (polled t1)"
        by (rule explained_update [OF ex1 x1 own]) simp_all
      then have c1: "tick_inv G t'" using g1 by (simp add: tick_inv_def t')
      have c5: "memo_le (visited t) (visited t')"
        using memo_le_trans [OF le1 memo_le_upd [of ?M1 x r1, OF x1]] by (simp add: t')
      have c3: "\<forall>s \<in> S. visited t' s = None" using S1 xS by (auto simp: t')
      have c4: "visited t' x = Some res" by (simp add: t' res)
      show ?thesis using c1 xS c3 c4 c5 by blast
    next
      case None
      from call vis node loop None obtain node1 obj where
        node1: "get_node (pl t1) x = Some node1"
        and t': "t' = t1\<lparr>visited := ?M1(x \<mapsto> res),
                 pl := put_node x (node1\<lparr>impl := obj\<rparr>) (pl t1),
                 polled := polled t1 @ [x]\<rparr>"
        by (auto split: option.splits)
      have "graph (put_node x (node1\<lparr>impl := obj\<rparr>) (pl t1)) = graph (pl t1)"
        using node1 by (auto simp: graph_def get_node_put_node fun_eq_iff)
      then have g': "graph (pl t') = G"
        using g1 by (simp add: t')
      from shape None have allr: "\<forall>item \<in> set (connections node). ?M1 (snd item) = Some ready"
        by simp
      have own: "case find (\<lambda>item. (?M1(x \<mapsto> res)) (snd item) \<noteq> Some ready) cs' of
           None \<Rightarrow> x \<in> set (polled t1 @ [x])
         | Some item \<Rightarrow> (?M1(x \<mapsto> res)) (snd item) = Some res \<and> res \<noteq> ready
              \<and> x \<notin> set (polled t1 @ [x])"
        if "G x = Some (cs', ds')" for cs' ds'
      proof -
        from that gx have cs': "cs' = connections node" by simp
        have "\<forall>i \<in> set cs'. \<not> (?M1(x \<mapsto> res)) (snd i) \<noteq> Some ready"
          using allr x1 unfolding cs' by auto
        then have "find (\<lambda>item. (?M1(x \<mapsto> res)) (snd item) \<noteq> Some ready) cs' = None"
          by (rule find_all_not)
        then show ?thesis by simp
      qed
      have "explained G (?M1(x \<mapsto> res)) (polled t1 @ [x])"
        by (rule explained_update [OF ex1 x1 own]) simp_all
      then have c1: "tick_inv G t'" using g' by (simp add: tick_inv_def t')
      have c5: "memo_le (visited t) (visited t')"
        using memo_le_trans [OF le1 memo_le_upd [of ?M1 x res, OF x1]] by (simp add: t')
      have c3: "\<forall>s \<in> S. visited t' s = None" using S1 xS by (auto simp: t')
      have c4: "visited t' x = Some res" by (simp add: t')
      show ?thesis using c1 xS c3 c4 c5 by blast
    qed
  qed
qed

section \<open>What a tick returns\<close>


lemma pending_empty: "pending G M {} x"
  by (simp add: pending_def)


lemma explained_empty: "explained G Map.empty []"
  by (simp add: explained_def)


section \<open>What run returns\<close>

lemma run_stops:
  "after_ticks k fuel V p = Some p' \<Longrightarrow> step fuel V p' = Some (True, q) \<Longrightarrow> run fuel V p = Some q"
proof (induction k arbitrary: p)
  case 0
  then show ?case by (simp add: run.simps)
next
  case (Suc k)
  from Suc.prems(1) obtain r where s: "step fuel V p = Some r" "\<not> fst r"
    "after_ticks k fuel V (snd r) = Some p'"
    by (auto split: option.splits if_splits)
  from Suc.IH [OF s(3) Suc.prems(2)] s(1,2) show ?case
    by (subst run.simps) simp
qed

lemma run_stopped:
  assumes "run fuel V p = Some q"
  shows "\<exists>k p'. after_ticks k fuel V p = Some p' \<and> step fuel V p' = Some (True, q)"
proof (rule run.raw_induct [where P = "\<lambda>fuel V p q.
    \<exists>k p'. after_ticks k fuel V p = Some p' \<and> step fuel V p' = Some (True, q)", OF _ assms])
  fix run' :: "nat \<Rightarrow> 'a vtable \<Rightarrow> 'a pipeline \<Rightarrow> 'a pipeline option"
  fix fuel V p q
  assume IH: "\<And>f W x y. run' f W x = Some y \<Longrightarrow>
      \<exists>k p'. after_ticks k f W x = Some p' \<and> step f W p' = Some (True, y)"
  assume eq: "(case step fuel V p of None \<Rightarrow> None
      | Some r \<Rightarrow> if fst r then Some (snd r) else run' fuel V (snd r)) = Some q"
  from eq obtain r where s: "step fuel V p = Some r"
    by (auto split: option.splits)
  show "\<exists>k p'. after_ticks k fuel V p = Some p' \<and> step fuel V p' = Some (True, q)"
  proof (cases "fst r")
    case True
    then have "step fuel V p = Some (True, q)" using eq s by (cases r) auto
    then have "after_ticks 0 fuel V p = Some p \<and> step fuel V p = Some (True, q)" by simp
    then show ?thesis by blast
  next
    case False
    then have rr: "run' fuel V (snd r) = Some q" using eq s by simp
    from IH [OF rr] obtain k p' where
      "after_ticks k fuel V (snd r) = Some p'" "step fuel V p' = Some (True, q)" by blast
    then have "after_ticks (Suc k) fuel V p = Some p' \<and> step fuel V p' = Some (True, q)"
      using s False by simp
    then show ?thesis by blast
  qed
qed

section \<open>A larger bound on the depth of the recursion\<close>

lemma polling_Suc:
  "polling f V x t = Some r \<Longrightarrow> polling (Suc f) V x t = Some r"
  "polling_loop f V cs t = Some lr \<Longrightarrow> polling_loop (Suc f) V cs t = Some lr"
proof (induction f V x t and f V cs t arbitrary: r and lr rule: polling_polling_loop.induct)
  case (1 V src t)
  then show ?case by simp
next
  case (2 fuel V src t)
  show ?case
  proof (cases "visited t src")
    case (Some a)
    then show ?thesis using "2.prems" by simp
  next
    case None
    note vis = this
    from "2.prems" vis obtain node where node: "get_node (pl t) src = Some node"
      by (auto split: option.splits)
    from "2.prems" vis node obtain lr1 where
      loop: "polling_loop fuel V (connections node) t = Some lr1"
      by (auto split: option.splits)
    have "polling_loop (Suc fuel) V (connections node) t = Some lr1"
      by (rule "2.IH" [OF vis node loop])
    then show ?thesis using "2.prems" vis node loop
      by (simp del: polling_loop.simps)
  qed
next
  case (3 fuel V t)
  then show ?case by simp
next
  case (4 fuel V slot next_src cs t)
  from "4.prems" obtain res1 t1 where
    p: "polling fuel V next_src t = Some (res1, t1)"
    by (auto split: option.splits)
  have p': "polling (Suc fuel) V next_src t = Some (res1, t1)"
    by (rule "4.IH"(1) [OF p])
  show ?case
  proof (cases "res1 = empty \<or> res1 = closed")
    case True
    then show ?thesis using "4.prems" p p' by (auto simp del: polling.simps)
  next
    case False
    then have l: "polling_loop fuel V cs t1 = Some lr"
      using "4.prems" p by simp
    have "polling_loop (Suc fuel) V cs t1 = Some lr"
      using "4.IH"(2) [OF p _ _ _ l] False by simp
    then show ?thesis using p' False by (simp del: polling.simps)
  qed
qed

lemma polling_more_fuel: "polling f V x t = Some r \<Longrightarrow> polling (f + k) V x t = Some r"
  by (induction k) (auto dest: polling_Suc(1) simp del: polling.simps)

lemma step_loop_more_fuel:
  "step_loop f V ns b t = Some r \<Longrightarrow> step_loop (f + k) V ns b t = Some r"
proof (induction ns arbitrary: b t)
  case Nil
  then show ?case by simp
next
  case (Cons n ns)
  from Cons.prems obtain node where node: "get_node (pl t) n = Some node"
    by (auto split: option.splits)
  show ?case
  proof (cases "get_output_type V (impl node) = typeid_void")
    case False
    then show ?thesis using Cons node by simp
  next
    case True
    with Cons.prems node obtain res t1 where p: "polling f V n t = Some (res, t1)"
      and rest: "step_loop f V ns (if res \<noteq> closed then False else b) t1 = Some r"
      by (auto split: option.splits)
    from polling_more_fuel [OF p, of k] Cons.IH [OF rest] node True
    show ?thesis by (simp del: polling.simps)
  qed
qed

lemma step_more_fuel: "step f V p = Some r \<Longrightarrow> step (f + k) V p = Some r"
  by (auto simp: step_def step_tick_def dest: step_loop_more_fuel [where k = k])

lemma after_ticks_more_fuel:
  "after_ticks n f V p = Some p' \<Longrightarrow> after_ticks n (f + k) V p = Some p'"
proof (induction n arbitrary: p)
  case 0
  then show ?case by simp
next
  case (Suc n)
  from Suc.prems obtain r where s: "step f V p = Some r" "\<not> fst r"
    "after_ticks n f V (snd r) = Some p'"
    by (auto split: option.splits if_splits)
  from step_more_fuel [OF s(1), of k] Suc.IH [OF s(3)] s(2) show ?case by simp
qed

lemma run_more_fuel: "run f V p = Some q \<Longrightarrow> run (f + k) V p = Some q"
proof -
  assume "run f V p = Some q"
  from run_stopped [OF this] obtain n p' where
    "after_ticks n f V p = Some p'" "step f V p' = Some (True, q)" by blast
  then have "after_ticks n (f + k) V p = Some p'" "step (f + k) V p' = Some (True, q)"
    by (auto dest: after_ticks_more_fuel step_more_fuel)
  then show ?thesis by (rule run_stops)
qed

section \<open>Demands that come back to a node in progress\<close>











lemma step_tick_more_fuel:
  "step_tick f V p = Some r \<Longrightarrow> step_tick (f + k) V p = Some r"
  unfolding step_tick_def by (rule step_loop_more_fuel)




section \<open>The nodes of the test suite under polling\<close>

lemma step_loop_tick_inv:
  "step_loop fuel V ns b t = Some (b', t') \<Longrightarrow> tick_inv G t \<Longrightarrow> tick_inv G t'"
proof (induction ns arbitrary: b t)
  case Nil
  then show ?case by simp
next
  case (Cons n ns)
  from Cons.prems(1) obtain node where node: "get_node (pl t) n = Some node"
    by (auto split: option.splits)
  show ?case
  proof (cases "get_output_type V (impl node) = typeid_void")
    case False
    then have "step_loop fuel V ns b t = Some (b', t')"
      using Cons.prems(1) node by simp
    from Cons.IH [OF this Cons.prems(2)] show ?thesis .
  next
    case True
    with Cons.prems(1) node obtain res t1 where
      p: "polling fuel V n t = Some (res, t1)"
      and rest: "step_loop fuel V ns (if res \<noteq> closed then False else b) t1 = Some (b', t')"
      by (auto split: option.splits)
    from polling_inv [OF p Cons.prems(2) pending_empty]
    have i1: "tick_inv G t1" by simp
    from Cons.IH [OF rest i1] show ?thesis .
  qed
qed

lemma step_tick_explained:
  assumes "step_tick fuel V p = Some (b, t)"
  shows "explained (graph p) (visited t) (polled t)"
proof -
  let ?t0 = "\<lparr>visited = Map.empty, pl = p, polled = []\<rparr>"
  have i0: "tick_inv (graph p) ?t0"
    by (simp add: tick_inv_def explained_empty)
  from assms have l: "step_loop fuel V (map fst (nodes p)) True ?t0 = Some (b, t)"
    by (simp add: step_tick_def)
  from step_loop_tick_inv [OF l i0] show ?thesis by (simp add: tick_inv_def)
qed

lemma distinct_count_le_1: "distinct xs \<Longrightarrow> count_list xs a \<le> 1"
  by (induction xs) (auto simp: count_list_0_iff)






section \<open>Evaluating the further pipelines\<close>


lemma step_tick_the:
  "step_tick fuel V p \<noteq> None
   \<Longrightarrow> step_tick fuel V p = Some (fst (the (step_tick fuel V p)), snd (the (step_tick fuel V p)))"
  by auto








lemma order_ticks:
  "map_option (\<lambda>r. (fst r, map (visited (snd r)) [1, 2, 4], polled (snd r)))
     (step_tick 3 test_vtable order_a)
   = Some (False, [Some empty, Some closed, Some empty], [2, 1])"
  "map_option (\<lambda>r. (fst r, map (visited (snd r)) [1, 2, 4], polled (snd r)))
     (step_tick 3 test_vtable order_b)
   = Some (True, [None, Some closed, Some closed], [2])"
  "map_option (\<lambda>r. (fst r, map (visited (snd r)) [1, 2, 4], polled (snd r)))
     (step_tick 3 test_vtable order_c)
   = Some (False, [Some empty, Some closed, Some empty], [2, 1])"
  by code_simp+

lemma order_connections:
  "connections (the (get_node order_a 4)) = [(0, 1), (1, 2)]"
  "connections (the (get_node order_b 4)) = [(1, 2), (0, 1)]"
  "connections (the (get_node order_c 4)) = [(1, 1), (0, 2)]"
  by code_simp+

lemma s1_run:
  "map_option (\<lambda>q. (map_option impl (get_node q 4), map_option impl (get_node q 5)))
     (run 3 test_vtable s1)
   = Some (Some (stream_sink (Some 3) ''2 4 6 8 10 ''),
           Some (stream_sink (Some 2) ''1 2 3 4 5 6 7 8 9 10 ''))"
  by code_simp

lemma s1_swapped_run:
  "map_option (\<lambda>q. (map_option impl (get_node q 4), map_option impl (get_node q 5)))
     (run 3 test_vtable s1_swapped)
   = Some (Some (stream_sink (Some 3) ''2 4 6 8 10 ''),
           Some (stream_sink (Some 2) ''1 2 3 4 5 6 7 8 9 10 ''))"
  by code_simp

section \<open>A closed and an empty upstream in one tick\<close>

text \<open>
  C1 (the code departs from the claim). The claim has a node with a \<open>closed\<close> upstream
  memoised \<open>closed\<close>, also when another upstream is \<open>empty\<close>, whatever the iteration order
  of its connections; so does the title of Test Case 20 of the test suite (if one node is
  closed, all the nodes that depend on it should be closed). The loop of \<^verbatim>\<open>polling\<close> returns
  at the first upstream whose demand is \<open>empty\<close> or \<open>closed\<close>. In \<open>order_a\<close> and \<open>order_c\<close> the
  component (id 4) has the empty source (id 1) first in its connections and the closed
  source (id 2) second, in whichever slot each sits: the component is memoised \<open>empty\<close>
  though its upstream 2 is memoised \<open>closed\<close>, and \<^verbatim>\<open>step\<close> returns false. In \<open>order_b\<close>, which
  has the nodes and edges of \<open>order_a\<close> with the two calls of \<open>connect\<close> in the other order,
  the closed source comes first: the component is memoised \<open>closed\<close>, the empty source is
  not demanded, and \<^verbatim>\<open>step\<close> returns true. Each line gives what \<^verbatim>\<open>step\<close> returns, the memo
  entries of the nodes 1, 2 and 4, and the nodes polled; \<open>k\<close> is any further depth allowed
  to the recursion.
\<close>

theorem closed_upstream_observed_empty:
  "map_option (\<lambda>r. (fst r, map (visited (snd r)) [1, 2, 4], polled (snd r)))
     (step_tick (3 + k) test_vtable order_a)
   = Some (False, [Some empty, Some closed, Some empty], [2, 1])
   \<and> connections (the (get_node order_a 4)) = [(0, 1), (1, 2)]
   \<and> map_option (\<lambda>r. (fst r, map (visited (snd r)) [1, 2, 4], polled (snd r)))
     (step_tick (3 + k) test_vtable order_c)
   = Some (False, [Some empty, Some closed, Some empty], [2, 1])
   \<and> connections (the (get_node order_c 4)) = [(1, 1), (0, 2)]
   \<and> map_option (\<lambda>r. (fst r, map (visited (snd r)) [1, 2, 4], polled (snd r)))
     (step_tick (3 + k) test_vtable order_b)
   = Some (True, [None, Some closed, Some closed], [2])
   \<and> connections (the (get_node order_b 4)) = [(1, 2), (0, 1)]"
proof -
  have more: "map_option g (step_tick (3 + k) test_vtable p) = Some v"
    if "map_option g (step_tick 3 test_vtable p) = Some v"
    for g :: "bool \<times> test_node tick \<Rightarrow> bool \<times> poll option list \<times> node_id list" and p v
  proof -
    from that obtain r where r: "step_tick 3 test_vtable p = Some r" and v: "g r = v"
      by (cases "step_tick 3 test_vtable p") auto
    from step_tick_more_fuel [OF r] have "step_tick (3 + k) test_vtable p = Some r" .
    with v show ?thesis by simp
  qed
  from more [OF order_ticks(1)] more [OF order_ticks(2)] more [OF order_ticks(3)]
    order_connections
  show ?thesis by blast
qed

section \<open>Polling a node once in a tick\<close>

text \<open>
  C7. In a tick that returns, no node has its \<^verbatim>\<open>poll_next\<close> invoked more than once
  (\<open>polled\<close> lists the invocations of the tick), by whatever paths and from however many
  sinks the node is reached, and every node polled has a memo entry; and a call of
  \<^verbatim>\<open>polling\<close> on a node that has a memo entry returns that entry and leaves the tick as it
  is: nothing is polled.
\<close>

theorem poll_at_most_once:
  "(step_tick fuel V p = Some (b, t)
      \<longrightarrow> (\<forall>n. count_list (polled t) n \<le> 1) \<and> set (polled t) \<subseteq> dom (visited t))
   \<and> (visited t0 n = Some r \<longrightarrow> polling (Suc f) V n t0 = Some (r, t0))"
proof -
  have a: "(\<forall>n. count_list (polled t) n \<le> 1) \<and> set (polled t) \<subseteq> dom (visited t)"
    if "step_tick fuel V p = Some (b, t)"
  proof -
    from that have "explained (graph p) (visited t) (polled t)" by (rule step_tick_explained)
    then have d: "distinct (polled t)" and s: "set (polled t) \<subseteq> dom (visited t)"
      unfolding explained_def by blast+
    from d have "\<forall>n. count_list (polled t) n \<le> 1"
      using distinct_count_le_1 [of "polled t"] by blast
    with s show ?thesis by blast
  qed
  have b: "polling (Suc f) V n t0 = Some (r, t0)" if "visited t0 n = Some r"
    using that by simp
  from a b show ?thesis by blast
qed

text \<open>
  In \<open>s1\<close> the source with id 2 feeds the component and a sink, and is polled once.
\<close>

theorem poll_at_most_once_witness:
  "dependencies (the (get_node s1 2)) = [(3, 1), (5, 0)]
   \<and> polled (snd (the (step_tick 3 test_vtable s1))) = [2, 1, 3, 4, 5]
   \<and> count_list (polled (snd (the (step_tick 3 test_vtable s1)))) 2 \<le> 1
   \<and> visited (snd (the (step_tick 3 test_vtable s1))) 2 = Some ready
   \<and> polling 1 test_vtable 2 (snd (the (step_tick 3 test_vtable s1)))
       = Some (ready, snd (the (step_tick 3 test_vtable s1)))"
proof -
  let ?t = "snd (the (step_tick 3 test_vtable s1))"
  have ne: "step_tick 3 test_vtable s1 \<noteq> None" by code_simp
  have v: "visited ?t 2 = Some ready" "polled ?t = [2, 1, 3, 4, 5]"
    by code_simp+
  have d: "dependencies (the (get_node s1 2)) = [(3, 1), (5, 0)]"
    by (simp add: s1_eval get_node_def)
  note th = poll_at_most_once [of 3 test_vtable s1 "fst (the (step_tick 3 test_vtable s1))" ?t
      ?t 2 ready 0]
  from th step_tick_the [OF ne] v have "count_list (polled ?t) 2 \<le> 1"
    and "polling 1 test_vtable 2 ?t = Some (ready, ?t)"
    by simp_all
  then show ?thesis using v d by simp
qed

section \<open>step and run\<close>




section \<open>Scenario S1\<close>

text \<open>
  C8. Running \<open>s1\<close> to completion (a source of bound 5 and a source of bound 10 into the
  two slots of the sum component, the component into stream sink A with id 4, the source
  of bound 10 also into stream sink B with id 5) returns, and leaves the stream of sink A
  equal to \<open>2 4 6 8 10 \<close> and that of sink B equal to \<open>1 2 3 4 5 6 7 8 9 10 \<close>; whatever
  the bound, from 3 on, of the model on the depth of the recursion, and in whichever order
  the two slots of the component were connected.
\<close>

theorem scenario_s1:
  "map_option (\<lambda>q. (map_option impl (get_node q 4), map_option impl (get_node q 5)))
     (run (3 + k) test_vtable s1)
   = Some (Some (stream_sink (Some 3) ''2 4 6 8 10 ''),
           Some (stream_sink (Some 2) ''1 2 3 4 5 6 7 8 9 10 ''))
   \<and> map_option (\<lambda>q. (map_option impl (get_node q 4), map_option impl (get_node q 5)))
     (run (3 + k) test_vtable s1_swapped)
   = Some (Some (stream_sink (Some 3) ''2 4 6 8 10 ''),
           Some (stream_sink (Some 2) ''1 2 3 4 5 6 7 8 9 10 ''))"
proof -
  have more: "map_option g (run (3 + k) test_vtable p) = Some v"
    if "map_option g (run 3 test_vtable p) = Some v" for g :: "test_node pipeline \<Rightarrow> 'a" and p v
  proof -
    from that obtain q where q: "run 3 test_vtable p = Some q" and v: "g q = v"
      by (cases "run 3 test_vtable p") auto
    from run_more_fuel [OF q] have "run (3 + k) test_vtable p = Some q" .
    with v show ?thesis by simp
  qed
  from more [OF s1_run] more [OF s1_swapped_run] show ?thesis by blast
qed

end
